theory Spec2Isabelle
  imports Main "HOL-Library.Word" "HOL-Library.Multiset"
begin

unbundle bit_operations_syntax

section \<open>Machine integers\<close>

type_synonym u8 = "8 word"
type_synonym u16 = "16 word"
type_synonym u32 = "32 word"
type_synonym u64 = "64 word"

section \<open>The event scheduler (scheduler.hpp)\<close>

subsection \<open>Data\<close>

text \<open>
  The ways an operation of the scheduler can abort.  \<open>CapacityExceeded\<close> and
  \<open>EndOfQueueReached\<close> are the two failed assertions of the source;
  \<open>BadFunctionCall\<close> is the exception thrown by invoking an empty
  \<open>std::function\<close>; \<open>OutOfBounds\<close> stands for an access outside the array
  \<open>heap[kMaxEvents]\<close> or through a pointer that is not one of the pooled events
  (undefined behaviour in C++).
\<close>

datatype error = CapacityExceeded | EndOfQueueReached | BadFunctionCall | OutOfBounds

text \<open>
  Modelled from the spec: \<open>Assert\<close> is declared in \<open>nba/log.hpp\<close>, which is not part
  of the sources at hand.  The specification calls a failed assertion fatal and
  non-recoverable: the operation does not continue.
\<close>

definition Assert :: "bool \<Rightarrow> error \<Rightarrow> error + unit" where
  "Assert condition e = (if condition then Inr () else Inl e)"

text \<open>
  A callback is a \<open>std::function<void(int)>\<close>.  \<open>NoCallback\<close> is the empty function
  object of a freshly constructed event, \<open>EndOfQueue\<close> the lambda installed by
  \<open>Reset\<close> (its body is \<open>Assert(false, ...)\<close>), and \<open>Client l\<close> a function object of a
  client of the scheduler, named by a label \<open>l\<close>.  What a client callback does when it is
  called is not part of \<open>scheduler.hpp\<close>; it is a parameter of \<open>Step\<close> below.
\<close>

datatype callback = NoCallback | EndOfQueue | Client nat

text \<open>
  The calls that a client callback makes on the scheduler while it runs: \<open>Add\<close> with a
  delay and a callback, \<open>Cancel\<close> with a pointer to an event.
\<close>

datatype request = DoAdd u64 callback | DoCancel nat

text \<open>
  \<open>handle\<close>, \<open>heap_size\<close> and the indices into \<open>heap\<close> are \<open>int\<close> in the source.
  They are natural numbers here: the only place where one of them would become negative
  is the decrement of \<open>heap_size\<close> in \<open>Remove\<close> when it is \<open>0\<close>, which is an error of
  the model (see \<open>Remove\<close>).
\<close>

record event =
  callback :: callback
  handle :: nat
  timestamp :: u64

text \<open>
  \<open>heap\<close> is the array of pointers \<open>Event* heap[kMaxEvents]\<close>; a pointer is the
  address (a number) of an event object, and \<open>events\<close> is the store that maps an address
  to the object.  \<open>invoked\<close> is not a member of the C++ struct: it records, in order,
  every call \<open>event->callback(0)\<close> of a client callback, as the address of the event, its
  callback and the value of \<open>timestamp_now\<close> at the moment of the call.
\<close>

record scheduler =
  heap :: "nat list"
  events :: "nat \<Rightarrow> event"
  heap_size :: nat
  timestamp_now :: u64
  invoked :: "(nat \<times> callback \<times> u64) list"

definition kMaxEvents :: nat where
  "kMaxEvents = 64"

subsection \<open>Private helpers\<close>

text \<open>
  \<open>Parent\<close> is \<open>(n - 1) / 2\<close> on \<open>int\<close>, where division truncates towards zero, so
  \<open>Parent(0) = 0\<close>; on \<open>nat\<close> the truncating subtraction gives the same value.
\<close>

definition Parent :: "nat \<Rightarrow> nat" where
  "Parent n = (n - 1) div 2"

definition LeftChild :: "nat \<Rightarrow> nat" where
  "LeftChild n = n * 2 + 1"

definition RightChild :: "nat \<Rightarrow> nat" where
  "RightChild n = n * 2 + 2"

text \<open>\<open>key s i\<close> abbreviates the expression \<open>heap[i]->timestamp\<close>.\<close>

definition key :: "scheduler \<Rightarrow> nat \<Rightarrow> u64" where
  "key s i = timestamp (events s (heap s ! i))"

definition Swap :: "nat \<Rightarrow> nat \<Rightarrow> scheduler \<Rightarrow> scheduler" where
  "Swap i j s =
    (let tmp = heap s ! i;
         s = s\<lparr>heap := (heap s)[i := heap s ! j]\<rparr>;
         s = s\<lparr>heap := (heap s)[j := tmp]\<rparr>;
         s = s\<lparr>events := (events s)(heap s ! i := (events s (heap s ! i))\<lparr>handle := i\<rparr>)\<rparr>;
         s = s\<lparr>events := (events s)(heap s ! j := (events s (heap s ! j))\<lparr>handle := j\<rparr>)\<rparr>
     in s)"

text \<open>
  The loop \<open>while (n != 0 && heap[p]->timestamp > heap[n]->timestamp)\<close> of \<open>Add\<close>, which
  is also the loop test of the \<open>do ... while\<close> of \<open>Remove\<close>.
\<close>

function sift_up :: "nat \<Rightarrow> scheduler \<Rightarrow> scheduler" where
  "sift_up n s =
    (let p = Parent n
     in if n \<noteq> 0 \<and> key s p > key s n then sift_up p (Swap n p s) else s)"
  by pat_completeness auto
termination
  by (relation "measure fst") (auto simp: Parent_def)

function Heapify :: "nat \<Rightarrow> scheduler \<Rightarrow> scheduler" where
  "Heapify n s =
    (let l = LeftChild n;
         r = RightChild n;
         s = (if l < heap_size s \<and> key s l < key s n then Heapify l (Swap l n s) else s)
     in if r < heap_size s \<and> key s r < key s n then Heapify r (Swap r n s) else s)"
  by pat_completeness auto

lemma heap_size_Swap [simp]: "heap_size (Swap i j s) = heap_size s"
  by (simp add: Swap_def Let_def)

lemma heap_size_Heapify_dom:
  "Heapify_dom (n, s) \<Longrightarrow> heap_size (Heapify n s) = heap_size s"
  by (induction n s rule: Heapify.pinduct) (simp add: Heapify.psimps Let_def)

termination Heapify
proof (relation "measure (\<lambda>(n, s). heap_size s - n)")
  show "wf (measure (\<lambda>(n, s). heap_size s - n))"
    by simp
next
  fix n s l r
  assume "l = LeftChild n" "l < heap_size s \<and> key s l < key s n"
  then show "((l, Swap l n s), n, s) \<in> measure (\<lambda>(n, s). heap_size s - n)"
    by (auto simp: LeftChild_def)
next
  fix n s l r s'
  assume r: "r = RightChild n" and "l = LeftChild n"
    and s': "s' = (if l < heap_size s \<and> key s l < key s n then Heapify l (Swap l n s) else s)"
    and c: "r < heap_size s' \<and> key s' r < key s' n"
    and d: "l < heap_size s \<and> key s l < key s n \<Longrightarrow> Heapify_dom (l, Swap l n s)"
  have "heap_size s' = heap_size s"
    using s' d by (simp add: heap_size_Heapify_dom)
  with r c show "((r, Swap r n s'), n, s) \<in> measure (\<lambda>(n, s). heap_size s - n)"
    by (auto simp: RightChild_def)
qed

declare sift_up.simps [simp del] Heapify.simps [simp del]

subsection \<open>Public operations\<close>

definition GetTimestampNow :: "scheduler \<Rightarrow> u64" where
  "GetTimestampNow s = timestamp_now s"

definition GetTimestampTarget :: "scheduler \<Rightarrow> u64" where
  "GetTimestampTarget s = timestamp (events s (heap s ! 0))"

text \<open>
  \<open>Add\<close> increments \<open>heap_size\<close> before the assertion, then fills the event that
  \<open>heap[n]\<close> points to and moves it up.  It returns the pointer to the event.
\<close>

definition Add :: "u64 \<Rightarrow> callback \<Rightarrow> scheduler \<Rightarrow> error + (nat \<times> scheduler)" where
  "Add delay cb s =
    (let n = heap_size s;
         s = s\<lparr>heap_size := heap_size s + 1\<rparr>
     in case Assert (heap_size s \<le> kMaxEvents) CapacityExceeded of
          Inl e \<Rightarrow> Inl e
        | Inr _ \<Rightarrow>
            let event = heap s ! n;
                s = s\<lparr>events := (events s)
                      (event := (events s event)\<lparr>timestamp := GetTimestampNow s + delay\<rparr>)\<rparr>;
                s = s\<lparr>events := (events s)(event := (events s event)\<lparr>callback := cb\<rparr>)\<rparr>
            in Inr (event, sift_up n s))"

text \<open>\<open>std::numeric_limits<u64>::max()\<close> is the word \<open>- 1\<close>.\<close>

definition Reset :: "scheduler \<Rightarrow> error + scheduler" where
  "Reset s =
    (let s = s\<lparr>heap_size := 0\<rparr>;
         s = s\<lparr>timestamp_now := 0\<rparr>
     in case Add (- 1) EndOfQueue s of Inl e \<Rightarrow> Inl e | Inr (_, s) \<Rightarrow> Inr s)"

text \<open>
  The constructor allocates \<open>kMaxEvents\<close> events, here at the addresses \<open>0, ..., 63\<close>;
  \<open>new Event()\<close> value-initialises the object (empty callback, timestamp 0), the loop
  sets \<open>handle = i\<close>, and \<open>Reset\<close> follows.
\<close>

definition Scheduler :: "error + scheduler" where
  "Scheduler =
    Reset \<lparr>heap = [0..<kMaxEvents],
           events = (\<lambda>i. \<lparr>callback = NoCallback, handle = i, timestamp = 0\<rparr>),
           heap_size = 0, timestamp_now = 0, invoked = []\<rparr>"

text \<open>
  \<open>Remove\<close> reads and writes \<open>heap[n]\<close> and \<open>heap[heap_size - 1]\<close>.  With
  \<open>heap_size = 0\<close> the C++ decrements to \<open>-1\<close> and indexes the array there; that, and an
  index beyond the array, is the error \<open>OutOfBounds\<close> here.  The \<open>do ... while\<close> runs its
  body once and then continues as the loop \<open>sift_up\<close>.
\<close>

definition Remove :: "nat \<Rightarrow> scheduler \<Rightarrow> error + scheduler" where
  "Remove n s =
    (if heap_size s = 0 \<or> kMaxEvents < heap_size s \<or> kMaxEvents \<le> n then Inl OutOfBounds
     else
       let s = s\<lparr>heap_size := heap_size s - 1\<rparr>;
           s = Swap n (heap_size s) s;
           p = Parent n
       in if n \<noteq> 0 \<and> key s p > key s n
          then Inr (sift_up p (Swap n p s))
          else Inr (Heapify n s))"

text \<open>
  \<open>Cancel\<close> dereferences the pointer it is given; the only event objects are the
  \<open>kMaxEvents\<close> pooled ones.
\<close>

definition Cancel :: "nat \<Rightarrow> scheduler \<Rightarrow> error + scheduler" where
  "Cancel event s =
    (if event < kMaxEvents then Remove (handle (events s event)) s else Inl OutOfBounds)"

text \<open>
  A client is the code behind the client callbacks: \<open>H l s\<close> is the sequence of calls
  that the callback \<open>Client l\<close> makes on the scheduler when it starts to run in the state
  \<open>s\<close>.  Since \<open>s\<close> holds the record \<open>invoked\<close> of this and of all earlier calls, the
  sequence may depend on everything that has happened so far.  \<open>do_request\<close> and
  \<open>do_requests\<close> run these calls in order; the first one that aborts ends the callback and
  everything that called it.  Calls of \<open>AddCycles\<close> and \<open>Reset\<close> from inside a callback
  are left out: while a callback runs, its event is still in the heap and due, and
  \<open>Step\<close> is not written to be entered again at that point.
\<close>

type_synonym client = "nat \<Rightarrow> scheduler \<Rightarrow> request list"

fun do_request :: "request \<Rightarrow> scheduler \<Rightarrow> error + scheduler" where
  "do_request (DoAdd delay cb) s =
     (case Add delay cb s of Inl e \<Rightarrow> Inl e | Inr (_, s') \<Rightarrow> Inr s')"
| "do_request (DoCancel event) s = Cancel event s"

fun do_requests :: "request list \<Rightarrow> scheduler \<Rightarrow> error + scheduler" where
  "do_requests [] s = Inr s"
| "do_requests (r # rs) s =
     (case do_request r s of Inl e \<Rightarrow> Inl e | Inr s' \<Rightarrow> do_requests rs s')"

text \<open>
  The call \<open>event->callback(0)\<close>: an empty function object throws, the lambda of \<open>Reset\<close>
  fails its assertion, and a client callback runs, on the scheduler, the calls it makes.
  (When a callback cancels its own event and then adds one, \<open>Add\<close> assigns to the function
  object that is running; here this is an assignment like any other.)
\<close>

definition invoke :: "client \<Rightarrow> nat \<Rightarrow> scheduler \<Rightarrow> error + scheduler" where
  "invoke H event s =
    (case callback (events s event) of
       NoCallback \<Rightarrow> Inl BadFunctionCall
     | EndOfQueue \<Rightarrow> Inl EndOfQueueReached
     | Client l \<Rightarrow>
         let s = s\<lparr>invoked := invoked s @ [(event, Client l, timestamp_now s)]\<rparr>
         in do_requests (H l s) s)"

lemma heap_size_sift_up [simp]: "heap_size (sift_up n s) = heap_size s"
  by (induction n s rule: sift_up.induct) (subst sift_up.simps, simp add: Let_def)

lemma heap_size_Heapify [simp]: "heap_size (Heapify n s) = heap_size s"
  by (induction n s rule: Heapify.induct) (subst Heapify.simps, simp add: Let_def)



text \<open>
  \<open>Step\<close>: the loop test reads \<open>heap[0]->timestamp\<close> first and \<open>heap_size > 0\<close> second;
  the body sets \<open>timestamp_now\<close>, calls the callback and removes the event at the index
  that its \<open>handle\<close> holds after the call.  A callback may add events that are due in
  their turn, so the loop need not end: \<open>None\<close> is the loop that runs forever,
  \<open>Some (Inl e)\<close> the loop that aborts, \<open>Some (Inr s')\<close> the loop that returns.
\<close>

partial_function (option) Step :: "client \<Rightarrow> u64 \<Rightarrow> scheduler \<Rightarrow> (error + scheduler) option" where
  "Step H timestamp_next s =
    (if timestamp (events s (heap s ! 0)) \<le> timestamp_next \<and> heap_size s > 0 then
       let event = heap s ! 0;
           s1 = s\<lparr>timestamp_now := timestamp (events s event)\<rparr>
       in case invoke H event s1 of
            Inl e \<Rightarrow> Some (Inl e)
          | Inr s2 \<Rightarrow>
              (case Remove (handle (events s2 event)) s2 of
                 Inl e \<Rightarrow> Some (Inl e)
               | Inr s3 \<Rightarrow> Step H timestamp_next s3)
     else Some (Inr s))"

declare Step.simps [code]

text \<open>
  \<open>AddCycles\<close>: \<open>timestamp_now + cycles\<close> converts the \<open>int\<close> to \<open>u64\<close>, that is
  modulo \<open>2 ^ 64\<close>, and the sum wraps around.
\<close>

definition AddCycles :: "client \<Rightarrow> int \<Rightarrow> scheduler \<Rightarrow> (error + scheduler) option" where
  "AddCycles H cycles s =
    (let timestamp_next = timestamp_now s + word_of_int cycles
     in case Step H timestamp_next s of
          None \<Rightarrow> None
        | Some (Inl e) \<Rightarrow> Some (Inl e)
        | Some (Inr s) \<Rightarrow> Some (Inr (s\<lparr>timestamp_now := timestamp_next\<rparr>)))"

subsection \<open>Sequences of calls\<close>

text \<open>
  The calls of the host on the scheduler.  \<open>Add\<close> and \<open>Cancel\<close> are the same calls that a
  callback can make; \<open>AddCycles\<close> runs the callbacks of the client \<open>H\<close>.
\<close>

datatype call = CallAdd u64 callback | CallCancel nat | CallAddCycles int

fun perform :: "client \<Rightarrow> call \<Rightarrow> scheduler \<Rightarrow> (error + scheduler) option" where
  "perform H (CallAdd delay cb) s = Some (do_request (DoAdd delay cb) s)"
| "perform H (CallCancel event) s = Some (do_request (DoCancel event) s)"
| "perform H (CallAddCycles cycles) s = AddCycles H cycles s"

fun run :: "client \<Rightarrow> call list \<Rightarrow> scheduler \<Rightarrow> (error + scheduler) option" where
  "run H [] s = Some (Inr s)"
| "run H (c # cs) s =
     (case perform H c s of
        None \<Rightarrow> None
      | Some (Inl e) \<Rightarrow> Some (Inl e)
      | Some (Inr s') \<Rightarrow> run H cs s')"

text \<open>A sequence of calls on a freshly constructed scheduler.\<close>

definition run_new :: "client \<Rightarrow> call list \<Rightarrow> (error + scheduler) option" where
  "run_new H cs = (case Scheduler of Inl e \<Rightarrow> Some (Inl e) | Inr s \<Rightarrow> run H cs s)"

text \<open>
  Two clients for the examples: the callbacks of \<open>quiet\<close> make no call; with \<open>rearm\<close>, the
  callback \<open>Client 5\<close> adds an event two cycles ahead, with the callback \<open>Client 7\<close>.
\<close>

definition quiet :: client where
  "quiet l s = []"

definition rearm :: client where
  "rearm l s = (if l = 5 then [DoAdd 2 (Client 7)] else [])"

section \<open>The memory accessors of the video unit (hw/ppu/ppu.hpp)\<close>

subsection \<open>Typed access to a byte array\<close>

text \<open>
  Modelled from the spec: \<open>read<T>\<close> and \<open>write<T>\<close> are declared in
  \<open>nba/common/punning.hpp\<close>, which is not part of the sources at hand.  An access of
  type \<open>T\<close> at \<open>offset\<close> reads or writes the \<open>sizeof(T)\<close> bytes of the array that
  start there, least significant byte first.  The arrays have a fixed size and C++ does
  not check the index: an access that leaves the array is undefined behaviour, which
  is the result \<open>None\<close> here.
\<close>

definition read_u8 :: "u8 list \<Rightarrow> nat \<Rightarrow> u8 option" where
  "read_u8 data offset =
     (if offset + 1 \<le> length data then Some (data ! offset) else None)"

definition read_u16 :: "u8 list \<Rightarrow> nat \<Rightarrow> u16 option" where
  "read_u16 data offset =
     (if offset + 2 \<le> length data
      then Some (ucast (data ! offset) OR push_bit 8 (ucast (data ! (offset + 1))))
      else None)"

definition read_u32 :: "u8 list \<Rightarrow> nat \<Rightarrow> u32 option" where
  "read_u32 data offset =
     (if offset + 4 \<le> length data
      then Some (ucast (data ! offset) OR push_bit 8 (ucast (data ! (offset + 1))) OR
                 push_bit 16 (ucast (data ! (offset + 2))) OR
                 push_bit 24 (ucast (data ! (offset + 3))))
      else None)"

definition write_u8 :: "u8 list \<Rightarrow> nat \<Rightarrow> u8 \<Rightarrow> u8 list option" where
  "write_u8 data offset v =
     (if offset + 1 \<le> length data then Some (data[offset := v]) else None)"

definition write_u16 :: "u8 list \<Rightarrow> nat \<Rightarrow> u16 \<Rightarrow> u8 list option" where
  "write_u16 data offset v =
     (if offset + 2 \<le> length data
      then Some (data[offset := ucast v, offset + 1 := ucast (drop_bit 8 v)])
      else None)"

definition write_u32 :: "u8 list \<Rightarrow> nat \<Rightarrow> u32 \<Rightarrow> u8 list option" where
  "write_u32 data offset v =
     (if offset + 4 \<le> length data
      then Some (data[offset := ucast v, offset + 1 := ucast (drop_bit 8 v),
                      offset + 2 := ucast (drop_bit 16 v), offset + 3 := ucast (drop_bit 24 v)])
      else None)"

subsection \<open>The state of the video unit\<close>

text \<open>
  Of the members of \<open>PPU\<close> the accessors use the three arrays and
  \<open>mmio.dispcnt.mode\<close> (\<open>DisplayControl\<close> is declared in \<open>hw/ppu/registers.hpp\<close>, not at
  hand; the mode is an integer).  \<open>synced\<close> is not a member of the C++ struct: it
  records every call of \<open>Sync\<close>, with the contents of the three arrays at the moment of
  the call.
\<close>

record ppu =
  pram :: "u8 list"
  oam :: "u8 list"
  vram :: "u8 list"
  dispcnt_mode :: int
  synced :: "(u8 list \<times> u8 list \<times> u8 list) list"

text \<open>
  Modelled from the spec: the body of \<open>Sync\<close> is in \<open>ppu.cpp\<close>, which is not part of the
  sources at hand.  It makes the renderer and the composer catch up to the current time;
  it reads the three arrays and does not write them.  The state of the renderer and the
  composer is not modelled, only the call and what it can read.
\<close>

definition Sync :: "ppu \<Rightarrow> ppu" where
  "Sync p = p\<lparr>synced := synced p @ [(pram p, oam p, vram p)]\<rparr>"


subsection \<open>Palette memory\<close>

definition ReadPRAM_u8 :: "u32 \<Rightarrow> ppu \<Rightarrow> u8 option" where
  "ReadPRAM_u8 address p = read_u8 (pram p) (unat (address AND 0x3FF))"

definition ReadPRAM_u16 :: "u32 \<Rightarrow> ppu \<Rightarrow> u16 option" where
  "ReadPRAM_u16 address p = read_u16 (pram p) (unat (address AND 0x3FF))"

definition ReadPRAM_u32 :: "u32 \<Rightarrow> ppu \<Rightarrow> u32 option" where
  "ReadPRAM_u32 address p = read_u32 (pram p) (unat (address AND 0x3FF))"

text \<open>
  \<open>value * 0x0101\<close> is computed on \<open>int\<close> (at most \<open>255 * 257 = 65535\<close>) and converted to
  \<open>u16\<close>.  In every \<open>WritePRAM\<close> the call of \<open>Sync\<close> is the last statement.
\<close>

definition WritePRAM_u8 :: "u32 \<Rightarrow> u8 \<Rightarrow> ppu \<Rightarrow> ppu option" where
  "WritePRAM_u8 address v p =
     (case write_u16 (pram p) (unat (address AND 0x3FE)) (ucast v * 0x0101) of
        None \<Rightarrow> None
      | Some m \<Rightarrow> Some (Sync (p\<lparr>pram := m\<rparr>)))"

definition WritePRAM_u16 :: "u32 \<Rightarrow> u16 \<Rightarrow> ppu \<Rightarrow> ppu option" where
  "WritePRAM_u16 address v p =
     (case write_u16 (pram p) (unat (address AND 0x3FF)) v of
        None \<Rightarrow> None
      | Some m \<Rightarrow> Some (Sync (p\<lparr>pram := m\<rparr>)))"

definition WritePRAM_u32 :: "u32 \<Rightarrow> u32 \<Rightarrow> ppu \<Rightarrow> ppu option" where
  "WritePRAM_u32 address v p =
     (case write_u32 (pram p) (unat (address AND 0x3FF)) v of
        None \<Rightarrow> None
      | Some m \<Rightarrow> Some (Sync (p\<lparr>pram := m\<rparr>)))"

subsection \<open>Video memory\<close>

text \<open>
  \<open>~0x8000\<close> and \<open>~1\<close> are \<open>int\<close> values with all higher bits set; converted to \<open>u32\<close>
  they are \<open>NOT 0x8000\<close> and \<open>NOT 1\<close>.
\<close>

definition ReadVRAM_u8 :: "u32 \<Rightarrow> ppu \<Rightarrow> u8 option" where
  "ReadVRAM_u8 address p =
     (let address = address AND 0x1FFFF;
          address = (if address \<ge> 0x18000 then address AND NOT 0x8000 else address)
      in read_u8 (vram p) (unat address))"

definition ReadVRAM_u16 :: "u32 \<Rightarrow> ppu \<Rightarrow> u16 option" where
  "ReadVRAM_u16 address p =
     (let address = address AND 0x1FFFF;
          address = (if address \<ge> 0x18000 then address AND NOT 0x8000 else address)
      in read_u16 (vram p) (unat address))"

definition ReadVRAM_u32 :: "u32 \<Rightarrow> ppu \<Rightarrow> u32 option" where
  "ReadVRAM_u32 address p =
     (let address = address AND 0x1FFFF;
          address = (if address \<ge> 0x18000 then address AND NOT 0x8000 else address)
      in read_u32 (vram p) (unat address))"

definition WriteVRAM_u8 :: "u32 \<Rightarrow> u8 \<Rightarrow> ppu \<Rightarrow> ppu option" where
  "WriteVRAM_u8 address v p =
     (let address = address AND 0x1FFFF;
          address = (if address \<ge> 0x18000 then address AND NOT 0x8000 else address);
          limit = (if dispcnt_mode p \<ge> 3 then 0x14000 else 0x10000)
      in if address < limit
         then (case write_u16 (vram p) (unat (address AND NOT 1)) (ucast v * 0x0101) of
                 None \<Rightarrow> None
               | Some m \<Rightarrow> Some (Sync (p\<lparr>vram := m\<rparr>)))
         else Some (Sync p))"

definition WriteVRAM_u16 :: "u32 \<Rightarrow> u16 \<Rightarrow> ppu \<Rightarrow> ppu option" where
  "WriteVRAM_u16 address v p =
     (let address = address AND 0x1FFFF;
          address = (if address \<ge> 0x18000 then address AND NOT 0x8000 else address)
      in case write_u16 (vram p) (unat address) v of
           None \<Rightarrow> None
         | Some m \<Rightarrow> Some (Sync (p\<lparr>vram := m\<rparr>)))"

definition WriteVRAM_u32 :: "u32 \<Rightarrow> u32 \<Rightarrow> ppu \<Rightarrow> ppu option" where
  "WriteVRAM_u32 address v p =
     (let address = address AND 0x1FFFF;
          address = (if address \<ge> 0x18000 then address AND NOT 0x8000 else address)
      in case write_u32 (vram p) (unat address) v of
           None \<Rightarrow> None
         | Some m \<Rightarrow> Some (Sync (p\<lparr>vram := m\<rparr>)))"

subsection \<open>Object attribute memory\<close>

definition ReadOAM_u8 :: "u32 \<Rightarrow> ppu \<Rightarrow> u8 option" where
  "ReadOAM_u8 address p = read_u8 (oam p) (unat (address AND 0x3FF))"

definition ReadOAM_u16 :: "u32 \<Rightarrow> ppu \<Rightarrow> u16 option" where
  "ReadOAM_u16 address p = read_u16 (oam p) (unat (address AND 0x3FF))"

definition ReadOAM_u32 :: "u32 \<Rightarrow> ppu \<Rightarrow> u32 option" where
  "ReadOAM_u32 address p = read_u32 (oam p) (unat (address AND 0x3FF))"

text \<open>\<open>WriteOAM\<close> has no statement for \<open>u8\<close> and never calls \<open>Sync\<close>.\<close>

definition WriteOAM_u8 :: "u32 \<Rightarrow> u8 \<Rightarrow> ppu \<Rightarrow> ppu option" where
  "WriteOAM_u8 address v p = Some p"

definition WriteOAM_u16 :: "u32 \<Rightarrow> u16 \<Rightarrow> ppu \<Rightarrow> ppu option" where
  "WriteOAM_u16 address v p =
     (case write_u16 (oam p) (unat (address AND 0x3FF)) v of
        None \<Rightarrow> None
      | Some m \<Rightarrow> Some (p\<lparr>oam := m\<rparr>))"

definition WriteOAM_u32 :: "u32 \<Rightarrow> u32 \<Rightarrow> ppu \<Rightarrow> ppu option" where
  "WriteOAM_u32 address v p =
     (case write_u32 (oam p) (unat (address AND 0x3FF)) v of
        None \<Rightarrow> None
      | Some m \<Rightarrow> Some (p\<lparr>oam := m\<rparr>))"

text \<open>The sizes of the arrays \<open>pram\<close>, \<open>oam\<close> and \<open>vram\<close>.\<close>

definition ppu_ok :: "ppu \<Rightarrow> bool" where
  "ppu_ok p \<longleftrightarrow>
     length (pram p) = 0x400 \<and> length (oam p) = 0x400 \<and> length (vram p) = 0x18000"

text \<open>An address is aligned to an access width when the width divides it.\<close>

definition aligned :: "u32 \<Rightarrow> nat \<Rightarrow> bool" where
  "aligned address width \<longleftrightarrow> width dvd unat address"

text \<open>The offset into \<open>vram\<close> that \<open>ReadVRAM\<close> and \<open>WriteVRAM\<close> compute first.\<close>

definition vram_offset :: "u32 \<Rightarrow> u32" where
  "vram_offset address =
     (let address = address AND 0x1FFFF
      in if address \<ge> 0x18000 then address AND NOT 0x8000 else address)"

text \<open>All three arrays hold zeros, the display mode is 0 and \<open>Sync\<close> was never called.\<close>

definition blank_ppu :: ppu where
  "blank_ppu =
     \<lparr>pram = replicate 0x400 0, oam = replicate 0x400 0, vram = replicate 0x18000 0,
      dispcnt_mode = 0, synced = []\<rparr>"


section \<open>Invariants of the scheduler\<close>

definition pool_ok :: "scheduler \<Rightarrow> bool" where
  "pool_ok s \<longleftrightarrow>
     length (heap s) = kMaxEvents \<and> distinct (heap s) \<and> set (heap s) = {..<kMaxEvents} \<and>
     heap_size s \<le> kMaxEvents \<and>
     (\<forall>i<kMaxEvents. handle (events s (heap s ! i)) = i)"

text \<open>
  The two conditionals of \<open>Heapify\<close> have the same shape; \<open>Heapify_child n c\<close> is the
  one for the child \<open>c\<close>.
\<close>

definition Heapify_child :: "nat \<Rightarrow> nat \<Rightarrow> scheduler \<Rightarrow> scheduler" where
  "Heapify_child n c s =
     (if c < heap_size s \<and> key s c < key s n then Heapify c (Swap c n s) else s)"

text \<open>\<open>in_sub n j\<close>: the index \<open>j\<close> lies in the subtree whose root is the index \<open>n\<close>.\<close>

function in_sub :: "nat \<Rightarrow> nat \<Rightarrow> bool" where
  "in_sub n j = (if j \<le> n then j = n else in_sub n (Parent j))"
  by pat_completeness auto
termination
  by (relation "measure snd") (auto simp: Parent_def)

declare in_sub.simps [simp del]

text \<open>
  The min-heap property of a key function \<open>k\<close> on the indices below \<open>h\<close>, and its
  restriction to the edges whose upper end lies in the subtree of \<open>n\<close>.
\<close>

definition heap_prop :: "(nat \<Rightarrow> u64) \<Rightarrow> nat \<Rightarrow> bool" where
  "heap_prop k h \<longleftrightarrow> (\<forall>j. 0 < j \<and> j < h \<longrightarrow> k (Parent j) \<le> k j)"

definition sub_heap :: "(nat \<Rightarrow> u64) \<Rightarrow> nat \<Rightarrow> nat \<Rightarrow> bool" where
  "sub_heap k h n \<longleftrightarrow> (\<forall>j. 0 < j \<and> j < h \<and> in_sub n (Parent j) \<longrightarrow> k (Parent j) \<le> k j)"

definition sub_ge :: "(nat \<Rightarrow> u64) \<Rightarrow> nat \<Rightarrow> nat \<Rightarrow> u64 \<Rightarrow> bool" where
  "sub_ge k h n b \<longleftrightarrow> (\<forall>j. j < h \<and> in_sub n j \<longrightarrow> b \<le> k j)"

text \<open>
  What the loop \<open>sift_up\<close> needs at index \<open>n\<close>: every edge but the one above \<open>n\<close> is in
  order, and the children of \<open>n\<close> are not below the parent of \<open>n\<close>.
\<close>

definition up_pre :: "(nat \<Rightarrow> u64) \<Rightarrow> nat \<Rightarrow> nat \<Rightarrow> bool" where
  "up_pre k h n \<longleftrightarrow>
     (\<forall>j. 0 < j \<and> j < h \<and> j \<noteq> n \<longrightarrow> k (Parent j) \<le> k j) \<and>
     (\<forall>j. 0 < j \<and> j < h \<and> Parent j = n \<and> n \<noteq> 0 \<longrightarrow> k (Parent n) \<le> k j)"

definition swapped :: "(nat \<Rightarrow> u64) \<Rightarrow> nat \<Rightarrow> nat \<Rightarrow> nat \<Rightarrow> u64" where
  "swapped k i j = (\<lambda>x. k (if x = i then j else if x = j then i else x))"

definition heap_ok :: "scheduler \<Rightarrow> bool" where
  "heap_ok s \<longleftrightarrow> heap_prop (key s) (heap_size s)"

text \<open>
  What \<open>Heapify n\<close> achieves, on the keys: outside the subtree of \<open>n\<close> nothing changes,
  a lower bound of the subtree stays one, and when the two subtrees below \<open>n\<close> are
  heaps the subtree of \<open>n\<close> becomes one.  \<open>child_done\<close> is the same for one of the two
  conditionals of \<open>Heapify\<close>, the one for the child \<open>c\<close> of \<open>n\<close>.
\<close>

definition heapified :: "nat \<Rightarrow> nat \<Rightarrow> (nat \<Rightarrow> u64) \<Rightarrow> (nat \<Rightarrow> u64) \<Rightarrow> bool" where
  "heapified n h k k' \<longleftrightarrow>
     (\<forall>j. \<not> in_sub n j \<longrightarrow> k' j = k j) \<and>
     (\<forall>b. sub_ge k h n b \<longrightarrow> sub_ge k' h n b) \<and>
     (sub_heap k h (LeftChild n) \<and> sub_heap k h (RightChild n) \<longrightarrow> sub_heap k' h n)"

definition child_done :: "nat \<Rightarrow> nat \<Rightarrow> nat \<Rightarrow> (nat \<Rightarrow> u64) \<Rightarrow> (nat \<Rightarrow> u64) \<Rightarrow> bool" where
  "child_done n c h k k' \<longleftrightarrow>
     (\<forall>j. j \<noteq> n \<and> \<not> in_sub c j \<longrightarrow> k' j = k j) \<and>
     k' n \<le> k n \<and>
     (\<forall>b. b \<le> k n \<and> sub_ge k h c b \<longrightarrow> b \<le> k' n \<and> sub_ge k' h c b) \<and>
     (sub_heap k h c \<longrightarrow> sub_heap k' h c \<and> (c < h \<longrightarrow> k' n \<le> k' c))"

text \<open>The pointers to the pending events: the first \<open>heap_size\<close> entries of \<open>heap\<close>.\<close>

definition pending :: "scheduler \<Rightarrow> nat list" where
  "pending s = take (heap_size s) (heap s)"

text \<open>
  The test and the body of the loop of \<open>Step\<close>, and the state in which the callback of
  the first event of the heap starts to run: \<open>timestamp_now\<close> is set and the call is
  recorded.
\<close>

definition due :: "u64 \<Rightarrow> scheduler \<Rightarrow> bool" where
  "due t s \<longleftrightarrow> timestamp (events s (heap s ! 0)) \<le> t \<and> heap_size s > 0"

definition fire :: "client \<Rightarrow> scheduler \<Rightarrow> error + scheduler" where
  "fire H s =
     (let event = heap s ! 0;
          s1 = s\<lparr>timestamp_now := timestamp (events s event)\<rparr>
      in case invoke H event s1 of
           Inl e \<Rightarrow> Inl e
         | Inr s2 \<Rightarrow> Remove (handle (events s2 event)) s2)"

definition called :: "scheduler \<Rightarrow> scheduler" where
  "called s =
     s\<lparr>timestamp_now := key s 0,
       invoked := invoked s @ [(heap s ! 0, callback (events s (heap s ! 0)), key s 0)]\<rparr>"

text \<open>
  \<open>drains H t s u\<close>: the loop of \<open>Step H t\<close>, entered in the state \<open>s\<close>, comes to its
  test in the state \<open>u\<close>.
\<close>

inductive drains :: "client \<Rightarrow> u64 \<Rightarrow> scheduler \<Rightarrow> scheduler \<Rightarrow> bool" for H t s where
  enter: "drains H t s s"
| again: "drains H t s u \<Longrightarrow> due t u \<Longrightarrow> fire H u = Inr u' \<Longrightarrow> drains H t s u'"

code_pred (modes: i \<Rightarrow> i \<Rightarrow> i \<Rightarrow> o \<Rightarrow> bool) drains .






text \<open>\<open>unused c s\<close>: no pending event of \<open>s\<close> has the callback \<open>c\<close>.\<close>

definition unused :: "callback \<Rightarrow> scheduler \<Rightarrow> bool" where
  "unused c s \<longleftrightarrow> (\<forall>x \<in> set (pending s). callback (events s x) \<noteq> c)"


section \<open>Properties of the scheduler\<close>

subsection \<open>The event pool and the stored indices\<close>

lemma heap_Swap: "heap (Swap i j s) = (heap s)[i := heap s ! j, j := heap s ! i]"
  by (simp add: Swap_def Let_def)

lemma length_heap_Swap [simp]: "length (heap (Swap i j s)) = length (heap s)"
  by (simp add: heap_Swap)

lemma timestamp_Swap [simp]: "timestamp (events (Swap i j s) e) = timestamp (events s e)"
  by (simp add: Swap_def Let_def)

lemma callback_Swap [simp]: "callback (events (Swap i j s) e) = callback (events s e)"
  by (simp add: Swap_def Let_def)

lemma timestamp_now_Swap [simp]: "timestamp_now (Swap i j s) = timestamp_now s"
  by (simp add: Swap_def Let_def)

lemma invoked_Swap [simp]: "invoked (Swap i j s) = invoked s"
  by (simp add: Swap_def Let_def)

lemma nth_heap_Swap:
  "i < length (heap s) \<Longrightarrow> j < length (heap s) \<Longrightarrow>
   heap (Swap i j s) ! x = heap s ! (if x = i then j else if x = j then i else x)"
  by (auto simp: heap_Swap nth_list_update)

lemma key_Swap:
  "i < length (heap s) \<Longrightarrow> j < length (heap s) \<Longrightarrow>
   key (Swap i j s) x = key s (if x = i then j else if x = j then i else x)"
  by (simp add: key_def nth_heap_Swap)

lemma handle_Swap:
  assumes "i < length (heap s)" "j < length (heap s)" "distinct (heap s)"
    and "x < length (heap s)"
    and "\<forall>y<length (heap s). handle (events s (heap s ! y)) = y"
  shows "handle (events (Swap i j s) (heap (Swap i j s) ! x)) = x"
proof -
  have neq: "heap s ! i \<noteq> heap s ! j" if "i \<noteq> j"
    using that assms by (simp add: nth_eq_iff_index_eq)
  have other: "heap s ! x \<noteq> heap s ! i" "heap s ! x \<noteq> heap s ! j" if "x \<noteq> i" "x \<noteq> j"
    using that assms by (simp_all add: nth_eq_iff_index_eq)
  show ?thesis
    using assms neq other
    by (cases "x = i"; cases "x = j") (auto simp: Swap_def Let_def nth_list_update)
qed

lemma pool_ok_Swap:
  assumes "pool_ok s" "i < kMaxEvents" "j < kMaxEvents"
  shows "pool_ok (Swap i j s)"
proof -
  from assms have len: "length (heap s) = kMaxEvents" and d: "distinct (heap s)"
    by (simp_all add: pool_ok_def)
  have "\<forall>x<kMaxEvents. handle (events (Swap i j s) (heap (Swap i j s) ! x)) = x"
    using assms handle_Swap [of i s j] by (simp add: pool_ok_def)
  moreover have "distinct (heap (Swap i j s))" "set (heap (Swap i j s)) = {..<kMaxEvents}"
    using assms len by (simp_all add: heap_Swap distinct_swap pool_ok_def)
  ultimately show ?thesis
    using assms by (simp add: pool_ok_def)
qed

lemma Parent_less: "n \<noteq> 0 \<Longrightarrow> Parent n < n"
  by (auto simp: Parent_def)

lemma Parent_le: "Parent n \<le> n"
  by (simp add: Parent_def)

lemma pool_ok_sift_up: "pool_ok s \<Longrightarrow> n < kMaxEvents \<Longrightarrow> pool_ok (sift_up n s)"
proof (induction n s rule: sift_up.induct)
  case (1 n s)
  have "Parent n < kMaxEvents"
    using "1.prems" Parent_le [of n] by simp
  then show ?case
    using 1 by (subst sift_up.simps) (simp add: Let_def pool_ok_Swap)
qed

lemma heap_size_Heapify_child [simp]: "heap_size (Heapify_child n c s) = heap_size s"
  by (simp add: Heapify_child_def)

lemma Heapify_unfold:
  "Heapify n s = Heapify_child n (RightChild n) (Heapify_child n (LeftChild n) s)"
  by (subst Heapify.simps) (simp add: Let_def Heapify_child_def)

lemma Heapify_child_induct [case_names step]:
  assumes "\<And>n s.
     (LeftChild n < heap_size s \<Longrightarrow> key s (LeftChild n) < key s n \<Longrightarrow>
        P (LeftChild n) (Swap (LeftChild n) n s)) \<Longrightarrow>
     (RightChild n < heap_size s \<Longrightarrow>
        key (Heapify_child n (LeftChild n) s) (RightChild n) < key (Heapify_child n (LeftChild n) s) n \<Longrightarrow>
        P (RightChild n) (Swap (RightChild n) n (Heapify_child n (LeftChild n) s))) \<Longrightarrow>
     P n s"
  shows "P n s"
proof (induction n s rule: Heapify.induct)
  case (1 n s)
  have hs: "heap_size (Heapify_child n (LeftChild n) s) = heap_size s"
    by (simp add: Heapify_child_def)
  show ?case
  proof (rule assms)
    assume "LeftChild n < heap_size s" "key s (LeftChild n) < key s n"
    then show "P (LeftChild n) (Swap (LeftChild n) n s)"
      using "1.IH"(1) by simp
  next
    assume "RightChild n < heap_size s"
      "key (Heapify_child n (LeftChild n) s) (RightChild n) < key (Heapify_child n (LeftChild n) s) n"
    then show "P (RightChild n) (Swap (RightChild n) n (Heapify_child n (LeftChild n) s))"
      using "1.IH"(2) [OF refl refl] hs by (simp add: Heapify_child_def)
  qed
qed

lemma pool_ok_Heapify: "pool_ok s \<Longrightarrow> n < kMaxEvents \<Longrightarrow> pool_ok (Heapify n s)"
proof (induction n s rule: Heapify_child_induct)
  case (step n s)
  let ?l = "LeftChild n" and ?r = "RightChild n"
  let ?s1 = "Heapify_child n ?l s"
  have hs: "heap_size s \<le> kMaxEvents"
    using step.prems by (simp add: pool_ok_def)
  have p1: "pool_ok ?s1"
    using step.IH(1) step.prems hs by (auto simp: Heapify_child_def pool_ok_Swap)
  have "pool_ok (Heapify_child n ?r ?s1)"
    using step.IH(2) step.prems hs p1
    by (auto simp: Heapify_child_def [of n ?r] pool_ok_Swap)
  then show ?case
    by (simp add: Heapify_unfold)
qed


lemma pool_ok_upd [simp]:
  "pool_ok (s\<lparr>invoked := x\<rparr>) = pool_ok s"
  "pool_ok (s\<lparr>timestamp_now := y\<rparr>) = pool_ok s"
  by (simp_all add: pool_ok_def)

lemma Add_error: "Add delay cb s = Inl e \<longleftrightarrow> kMaxEvents \<le> heap_size s \<and> e = CapacityExceeded"
  by (auto simp: Add_def Assert_def Let_def)

lemma Add_Inr:
  "heap_size s < kMaxEvents \<Longrightarrow>
   Add delay cb s =
     Inr (heap s ! heap_size s,
          sift_up (heap_size s)
            (s\<lparr>heap_size := heap_size s + 1,
               events := (events s)(heap s ! heap_size s :=
                 (events s (heap s ! heap_size s))
                   \<lparr>timestamp := timestamp_now s + delay, callback := cb\<rparr>)\<rparr>))"
  by (simp add: Add_def Assert_def Let_def GetTimestampNow_def)

lemma pool_ok_Add:
  assumes "pool_ok s" "Add delay cb s = Inr (e, s')"
  shows "pool_ok s'" "heap_size s' = heap_size s + 1" "e < kMaxEvents"
proof -
  have lt: "heap_size s < kMaxEvents"
    using assms(2) Add_error [of delay cb s CapacityExceeded] by (cases "heap_size s < kMaxEvents") auto
  let ?n = "heap_size s"
  let ?s1 = "s\<lparr>heap_size := heap_size s + 1,
               events := (events s)(heap s ! heap_size s :=
                 (events s (heap s ! heap_size s))
                   \<lparr>timestamp := timestamp_now s + delay, callback := cb\<rparr>)\<rparr>"
  have eq: "s' = sift_up ?n ?s1" "e = heap s ! ?n"
    using assms(2) Add_Inr [OF lt, of delay cb] by auto
  have "pool_ok ?s1"
    using assms(1) lt by (auto simp: pool_ok_def nth_eq_iff_index_eq)
  then show "pool_ok s'"
    using lt eq by (simp add: pool_ok_sift_up)
  show "heap_size s' = heap_size s + 1"
    using eq by simp
  have "?n < length (heap s)"
    using assms(1) lt by (simp add: pool_ok_def)
  then have "heap s ! ?n \<in> set (heap s)"
    by (rule nth_mem)
  moreover have "set (heap s) = {..<kMaxEvents}"
    using assms(1) by (simp add: pool_ok_def)
  ultimately show "e < kMaxEvents"
    using eq by simp
qed

lemma sift_up_0 [simp]: "sift_up 0 s = s"
  by (subst sift_up.simps) simp

lemma Scheduler_eq:
  "Scheduler =
     Inr \<lparr>heap = [0..<kMaxEvents],
          events = (\<lambda>i. \<lparr>callback = NoCallback, handle = i, timestamp = 0\<rparr>)
            (0 := \<lparr>callback = EndOfQueue, handle = 0, timestamp = - 1\<rparr>),
          heap_size = 1, timestamp_now = 0, invoked = []\<rparr>"
proof -
  have "[0..<kMaxEvents] ! 0 = 0"
    by (simp add: kMaxEvents_def)
  then show ?thesis
    by (simp add: Scheduler_def Reset_def Let_def Add_def Assert_def GetTimestampNow_def
        kMaxEvents_def)
qed

lemma Scheduler_Inr:
  "\<exists>s. Scheduler = Inr s \<and> pool_ok s \<and> heap_size s = 1 \<and> timestamp_now s = 0 \<and>
       invoked s = [] \<and> callback (events s (heap s ! 0)) = EndOfQueue \<and> key s 0 = - 1"
proof -
  have "[0..<kMaxEvents] ! 0 = 0" "0 < kMaxEvents"
    by (simp_all add: kMaxEvents_def)
  then show ?thesis
    unfolding Scheduler_eq by (auto simp: pool_ok_def key_def)
qed

lemma Remove_error:
  "Remove n s = Inl e \<longleftrightarrow>
     (heap_size s = 0 \<or> kMaxEvents < heap_size s \<or> kMaxEvents \<le> n) \<and> e = OutOfBounds"
  by (auto simp: Remove_def Let_def)

lemma pool_ok_Remove:
  assumes "pool_ok s" "Remove n s = Inr s'"
  shows "pool_ok s'"
proof -
  have b: "heap_size s \<noteq> 0" "heap_size s \<le> kMaxEvents" "n < kMaxEvents"
    using assms(2) by (auto simp: Remove_def split: if_splits)
  let ?s1 = "Swap n (heap_size s - 1) (s\<lparr>heap_size := heap_size s - 1\<rparr>)"
  have "pool_ok (s\<lparr>heap_size := heap_size s - 1\<rparr>)"
    using assms(1) by (auto simp: pool_ok_def)
  then have p1: "pool_ok ?s1"
    using b by (simp add: pool_ok_Swap)
  have pn: "Parent n < kMaxEvents"
    using b Parent_le [of n] by simp
  have "s' = sift_up (Parent n) (Swap n (Parent n) ?s1) \<or> s' = Heapify n ?s1"
    using assms(2) b by (auto simp: Remove_def Let_def split: if_splits)
  then show ?thesis
    using p1 pn b by (auto simp: pool_ok_sift_up pool_ok_Heapify pool_ok_Swap)
qed

lemma handle_lookup:
  assumes "pool_ok s" "e < kMaxEvents"
  shows "handle (events s e) < kMaxEvents" "heap s ! handle (events s e) = e"
proof -
  from assms have "e \<in> set (heap s)"
    by (simp add: pool_ok_def)
  then obtain i where i: "i < length (heap s)" "heap s ! i = e"
    by (auto simp: in_set_conv_nth)
  with assms(1) have "handle (events s e) = i" "i < kMaxEvents"
    by (auto simp: pool_ok_def)
  with i show "handle (events s e) < kMaxEvents" "heap s ! handle (events s e) = e"
    by simp_all
qed

lemma pool_ok_Cancel: "pool_ok s \<Longrightarrow> Cancel e s = Inr s' \<Longrightarrow> pool_ok s'"
  by (auto simp: Cancel_def pool_ok_Remove split: if_splits)

subsection \<open>Callbacks and the loop of \<open>Step\<close>\<close>

lemma do_requests_append:
  "do_requests (rs @ rs') s =
     (case do_requests rs s of Inl e \<Rightarrow> Inl e | Inr s' \<Rightarrow> do_requests rs' s')"
  by (induction rs arbitrary: s) (auto split: sum.splits)

lemma do_requests_induct [consumes 1, case_names start request]:
  assumes "do_requests rs s = Inr s'" and "P s"
    and "\<And>r u u'. r \<in> set rs \<Longrightarrow> P u \<Longrightarrow> do_request r u = Inr u' \<Longrightarrow> P u'"
  shows "P s'"
  using assms
proof (induction rs arbitrary: s)
  case Nil
  then show ?case by simp
next
  case (Cons r rs)
  from Cons.prems(1) obtain s1 where s1: "do_request r s = Inr s1" "do_requests rs s1 = Inr s'"
    by (auto split: sum.splits)
  have "P s1"
    using Cons.prems(3) [of r s s1] Cons.prems(2) s1(1) by simp
  then show ?case
  proof (rule Cons.IH [OF s1(2)])
    fix r' u u'
    assume "r' \<in> set rs" "P u" "do_request r' u = Inr u'"
    then show "P u'"
      using Cons.prems(3) [of r' u u'] by simp
  qed
qed

lemma do_request_Inr:
  "do_request r s = Inr s' \<longleftrightarrow>
     (\<exists>delay cb e. r = DoAdd delay cb \<and> Add delay cb s = Inr (e, s')) \<or>
     (\<exists>event. r = DoCancel event \<and> Cancel event s = Inr s')"
  by (cases r) (auto split: sum.splits)

lemma do_request_capacity:
  "do_request r s = Inl CapacityExceeded \<Longrightarrow>
   \<exists>delay cb. r = DoAdd delay cb \<and> kMaxEvents \<le> heap_size s"
  by (cases r) (auto simp: Add_error Cancel_def Remove_error split: sum.splits if_splits)

lemma do_requests_capacity:
  "do_requests rs s = Inl CapacityExceeded \<Longrightarrow>
   \<exists>pre delay cb post s'. rs = pre @ DoAdd delay cb # post \<and> do_requests pre s = Inr s' \<and>
      kMaxEvents \<le> heap_size s'"
proof (induction rs arbitrary: s)
  case Nil
  then show ?case by simp
next
  case (Cons r rs)
  show ?case
  proof (cases "do_request r s")
    case (Inl e)
    then have "do_request r s = Inl CapacityExceeded"
      using Cons.prems by simp
    then obtain delay cb where "r = DoAdd delay cb" "kMaxEvents \<le> heap_size s"
      using do_request_capacity by blast
    then have "r # rs = [] @ DoAdd delay cb # rs \<and> do_requests [] s = Inr s \<and>
        kMaxEvents \<le> heap_size s"
      by simp
    then show ?thesis by blast
  next
    case (Inr s1)
    then have "do_requests rs s1 = Inl CapacityExceeded"
      using Cons.prems by simp
    then obtain pre delay cb post s' where
      "rs = pre @ DoAdd delay cb # post" "do_requests pre s1 = Inr s'" "kMaxEvents \<le> heap_size s'"
      using Cons.IH by blast
    then have "r # rs = (r # pre) @ DoAdd delay cb # post \<and> do_requests (r # pre) s = Inr s' \<and>
        kMaxEvents \<le> heap_size s'"
      using Inr by simp
    then show ?thesis by blast
  qed
qed

lemma pool_ok_do_request: "pool_ok s \<Longrightarrow> do_request r s = Inr s' \<Longrightarrow> pool_ok s'"
  by (auto simp: do_request_Inr dest: pool_ok_Add pool_ok_Cancel)

lemma pool_ok_do_requests: "pool_ok s \<Longrightarrow> do_requests rs s = Inr s' \<Longrightarrow> pool_ok s'"
  by (erule do_requests_induct [rotated]) (auto dest: pool_ok_do_request)

lemma invoke_called:
  "invoke H (heap s ! 0) (s\<lparr>timestamp_now := timestamp (events s (heap s ! 0))\<rparr>) =
     (case callback (events s (heap s ! 0)) of
        NoCallback \<Rightarrow> Inl BadFunctionCall
      | EndOfQueue \<Rightarrow> Inl EndOfQueueReached
      | Client l \<Rightarrow> do_requests (H l (called s)) (called s))"
  by (simp add: invoke_def called_def key_def Let_def split: callback.splits)

lemma fire_Inr:
  "fire H s = Inr s' \<longleftrightarrow>
     (\<exists>l s2. callback (events s (heap s ! 0)) = Client l \<and>
        do_requests (H l (called s)) (called s) = Inr s2 \<and>
        Remove (handle (events s2 (heap s ! 0))) s2 = Inr s')"
  unfolding fire_def Let_def invoke_called by (auto split: callback.splits sum.splits)

lemma fire_capacity:
  "fire H s = Inl CapacityExceeded \<longleftrightarrow>
     (\<exists>l. callback (events s (heap s ! 0)) = Client l \<and>
        do_requests (H l (called s)) (called s) = Inl CapacityExceeded)"
  unfolding fire_def Let_def invoke_called
  by (auto simp: Remove_error split: callback.splits sum.splits)

lemma pool_ok_called [simp]: "pool_ok (called s) = pool_ok s"
  by (simp add: called_def pool_ok_def)

lemma pool_ok_fire: "pool_ok s \<Longrightarrow> fire H s = Inr s' \<Longrightarrow> pool_ok s'"
  by (auto simp: fire_Inr dest!: pool_ok_do_requests [rotated] intro: pool_ok_Remove)


lemma drains_front:
  assumes "drains H t s' u" and "due t s" and "fire H s = Inr s'"
  shows "drains H t s u"
  using assms
proof (induction rule: drains.induct)
  case enter
  then show ?case
    using drains.enter [of H t s] by (auto intro: drains.again)
next
  case (again u u')
  then show ?case
    by (auto intro: drains.again)
qed

text \<open>
  When \<open>Step\<close> returns, the loop has come to its test in the state returned, and the test
  has failed there; when it aborts, the loop has come to its test in a state where the
  body aborts.
\<close>

lemma Step_result:
  assumes "Step H t s = Some r"
  shows "case r of
           Inr s' \<Rightarrow> drains H t s s' \<and> \<not> due t s'
         | Inl e \<Rightarrow> (\<exists>u. drains H t s u \<and> due t u \<and> fire H u = Inl e)"
proof (rule Step.raw_induct
    [where P = "\<lambda>H t s r. case r of
           Inr s' \<Rightarrow> drains H t s s' \<and> \<not> due t s'
         | Inl e \<Rightarrow> (\<exists>u. drains H t s u \<and> due t u \<and> fire H u = Inl e)", OF _ assms])
  fix f :: "client \<Rightarrow> u64 \<Rightarrow> scheduler \<Rightarrow> (error + scheduler) option" and H t s r
  assume IH: "\<And>H t s r. f H t s = Some r \<Longrightarrow>
      (case r of
         Inr s' \<Rightarrow> drains H t s s' \<and> \<not> due t s'
       | Inl e \<Rightarrow> (\<exists>u. drains H t s u \<and> due t u \<and> fire H u = Inl e))"
  assume "(if timestamp (events s (heap s ! 0)) \<le> t \<and> 0 < heap_size s
      then let event = heap s ! 0;
               s1 = s\<lparr>timestamp_now := timestamp (events s event)\<rparr>
           in case invoke H event s1 of Inl e \<Rightarrow> Some (Inl e)
              | Inr s2 \<Rightarrow>
                  case Remove (handle (events s2 event)) s2 of
                  Inl e \<Rightarrow> Some (Inl e) | Inr s3 \<Rightarrow> f H t s3
      else Some (Inr s)) = Some r"
  then have eq: "(if due t s
      then case fire H s of Inl e \<Rightarrow> Some (Inl e) | Inr s' \<Rightarrow> f H t s'
      else Some (Inr s)) = Some r"
    by (auto simp: due_def fire_def Let_def split: sum.splits if_splits)
  show "case r of
           Inr s' \<Rightarrow> drains H t s s' \<and> \<not> due t s'
         | Inl e \<Rightarrow> (\<exists>u. drains H t s u \<and> due t u \<and> fire H u = Inl e)"
  proof (cases "due t s")
    case False
    then show ?thesis
      using eq by (auto intro: drains.enter)
  next
    case True
    show ?thesis
    proof (cases "fire H s")
      case (Inl e)
      then have "r = Inl e"
        using eq True by simp
      then show ?thesis
        using True Inl drains.enter [of H t s] by auto
    next
      case (Inr s')
      then have "f H t s' = Some r"
        using eq True by simp
      from IH [OF this] show ?thesis
        using True Inr by (auto split: sum.splits intro: drains_front)
    qed
  qed
qed

lemma Step_drains:
  "Step H t s = Some (Inr s') \<Longrightarrow> drains H t s s' \<and> \<not> due t s'"
  using Step_result [of H t s "Inr s'"] by simp

lemma Step_aborts:
  "Step H t s = Some (Inl e) \<Longrightarrow> \<exists>u. drains H t s u \<and> due t u \<and> fire H u = Inl e"
  using Step_result [of H t s "Inl e"] by simp

lemma pool_ok_drains: "drains H t s u \<Longrightarrow> pool_ok s \<Longrightarrow> pool_ok u"
  by (induction rule: drains.induct) (auto dest: pool_ok_fire)

lemma pool_ok_Step: "pool_ok s \<Longrightarrow> Step H t s = Some (Inr s') \<Longrightarrow> pool_ok s'"
  by (auto dest: Step_drains pool_ok_drains)

subsection \<open>The pool along a sequence of calls\<close>

lemma AddCycles_Inr:
  "AddCycles H c s = Some (Inr s') \<longleftrightarrow>
     (\<exists>u. Step H (timestamp_now s + word_of_int c) s = Some (Inr u) \<and>
          s' = u\<lparr>timestamp_now := timestamp_now s + word_of_int c\<rparr>)"
  by (auto simp: AddCycles_def Let_def split: option.splits sum.splits)

lemma AddCycles_Inl:
  "AddCycles H c s = Some (Inl e) \<longleftrightarrow> Step H (timestamp_now s + word_of_int c) s = Some (Inl e)"
  by (auto simp: AddCycles_def Let_def split: option.splits sum.splits)

lemma perform_Inr:
  "perform H c s = Some (Inr s') \<longleftrightarrow>
     (\<exists>delay cb e. c = CallAdd delay cb \<and> Add delay cb s = Inr (e, s')) \<or>
     (\<exists>event. c = CallCancel event \<and> Cancel event s = Inr s') \<or>
     (\<exists>n. c = CallAddCycles n \<and> AddCycles H n s = Some (Inr s'))"
  by (cases c) (auto split: sum.splits)

lemma run_Cons_Inr:
  "run H (c # cs) s = Some (Inr s') \<longleftrightarrow>
     (\<exists>s1. perform H c s = Some (Inr s1) \<and> run H cs s1 = Some (Inr s'))"
  by (auto split: option.splits sum.splits)

lemma run_induct [consumes 1, case_names start call]:
  assumes "run H cs s = Some (Inr s')" and "P s"
    and "\<And>c u u'. c \<in> set cs \<Longrightarrow> P u \<Longrightarrow> perform H c u = Some (Inr u') \<Longrightarrow> P u'"
  shows "P s'"
  using assms
proof (induction cs arbitrary: s)
  case Nil
  then show ?case by simp
next
  case (Cons c cs)
  from Cons.prems(1) obtain s1 where
    s1: "perform H c s = Some (Inr s1)" "run H cs s1 = Some (Inr s')"
    by (auto split: option.splits sum.splits)
  have "P s1"
    using Cons.prems(3) [of c s s1] Cons.prems(2) s1(1) by simp
  then show ?case
  proof (rule Cons.IH [OF s1(2)])
    fix c' u u'
    assume "c' \<in> set cs" "P u" "perform H c' u = Some (Inr u')"
    then show "P u'"
      using Cons.prems(3) [of c' u u'] by simp
  qed
qed

lemma run_new_Inr:
  "run_new H cs = Some (Inr s) \<longleftrightarrow> (\<exists>s0. Scheduler = Inr s0 \<and> run H cs s0 = Some (Inr s))"
proof -
  obtain s0 where s0: "Scheduler = Inr s0"
    using Scheduler_Inr by blast
  show ?thesis
    unfolding run_new_def s0 by simp
qed

lemma pool_ok_AddCycles: "pool_ok s \<Longrightarrow> AddCycles H c s = Some (Inr s') \<Longrightarrow> pool_ok s'"
  by (auto simp: AddCycles_Inr dest: pool_ok_Step)

lemma pool_ok_perform: "pool_ok s \<Longrightarrow> perform H c s = Some (Inr s') \<Longrightarrow> pool_ok s'"
  by (auto simp: perform_Inr dest: pool_ok_Add pool_ok_Cancel pool_ok_AddCycles)

lemma pool_ok_run: "pool_ok s \<Longrightarrow> run H cs s = Some (Inr s') \<Longrightarrow> pool_ok s'"
  by (erule run_induct [rotated]) (auto dest: pool_ok_perform)

lemma pool_ok_run_new:
  assumes "run_new H cs = Some (Inr s)"
  shows "pool_ok s"
proof -
  obtain s0 where s0: "Scheduler = Inr s0" "pool_ok s0"
    using Scheduler_Inr by blast
  from assms have "run H cs s0 = Some (Inr s)"
    unfolding run_new_def s0(1) by simp
  then show ?thesis
    using s0(2) by (rule pool_ok_run [rotated])
qed

text \<open>
  Where the capacity assertion can fail: in an \<open>Add\<close> of the host, or in an \<open>Add\<close> of a
  callback that \<open>Step\<close> calls, and only with \<open>heap_size\<close> at \<open>kMaxEvents\<close> (or more).
\<close>

lemma Step_capacity:
  assumes "Step H t s = Some (Inl CapacityExceeded)"
  shows "\<exists>u l pre delay cb post u'. drains H t s u \<and> due t u \<and>
           callback (events u (heap u ! 0)) = Client l \<and>
           H l (called u) = pre @ DoAdd delay cb # post \<and>
           do_requests pre (called u) = Inr u' \<and> kMaxEvents \<le> heap_size u'"
proof -
  obtain u where u: "drains H t s u" "due t u" "fire H u = Inl CapacityExceeded"
    using Step_aborts [OF assms] by blast
  then obtain l where l: "callback (events u (heap u ! 0)) = Client l"
    "do_requests (H l (called u)) (called u) = Inl CapacityExceeded"
    by (auto simp: fire_capacity)
  from do_requests_capacity [OF l(2)] u(1,2) l(1) show ?thesis
    by blast
qed

lemma perform_capacity:
  assumes "perform H c s = Some (Inl CapacityExceeded)"
  shows "(\<exists>delay cb. c = CallAdd delay cb \<and> kMaxEvents \<le> heap_size s) \<or>
         (\<exists>n u l pre delay cb post u'. c = CallAddCycles n \<and>
            drains H (timestamp_now s + word_of_int n) s u \<and>
            due (timestamp_now s + word_of_int n) u \<and>
            callback (events u (heap u ! 0)) = Client l \<and>
            H l (called u) = pre @ DoAdd delay cb # post \<and>
            do_requests pre (called u) = Inr u' \<and> kMaxEvents \<le> heap_size u')"
proof (cases c)
  case (CallAdd delay cb)
  then show ?thesis
    using assms do_request_capacity [of "DoAdd delay cb" s] by auto
next
  case (CallCancel e)
  then show ?thesis
    using assms do_request_capacity [of "DoCancel e" s] by auto
next
  case (CallAddCycles n)
  then have "Step H (timestamp_now s + word_of_int n) s = Some (Inl CapacityExceeded)"
    using assms by (simp add: AddCycles_Inl)
  from Step_capacity [OF this] show ?thesis
    using CallAddCycles by blast
qed

lemma run_capacity:
  "run H cs s = Some (Inl CapacityExceeded) \<Longrightarrow>
   \<exists>pre c post s'. cs = pre @ c # post \<and> run H pre s = Some (Inr s') \<and>
      perform H c s' = Some (Inl CapacityExceeded)"
proof (induction cs arbitrary: s)
  case Nil
  then show ?case by simp
next
  case (Cons c cs)
  show ?case
  proof (cases "perform H c s")
    case None
    then show ?thesis
      using Cons.prems by simp
  next
    case (Some r)
    show ?thesis
    proof (cases r)
      case (Inl e)
      then have "perform H c s = Some (Inl CapacityExceeded)"
        using Cons.prems Some by simp
      then have "c # cs = [] @ c # cs \<and> run H [] s = Some (Inr s) \<and>
          perform H c s = Some (Inl CapacityExceeded)"
        by simp
      then show ?thesis by blast
    next
      case (Inr s1)
      then have "run H cs s1 = Some (Inl CapacityExceeded)"
        using Cons.prems Some by simp
      then obtain pre c' post s' where
        "cs = pre @ c' # post" "run H pre s1 = Some (Inr s')"
        "perform H c' s' = Some (Inl CapacityExceeded)"
        using Cons.IH by blast
      then have "c # cs = (c # pre) @ c' # post \<and> run H (c # pre) s = Some (Inr s') \<and>
          perform H c' s' = Some (Inl CapacityExceeded)"
        using Inr Some by simp
      then show ?thesis by blast
    qed
  qed
qed

subsection \<open>Index arithmetic\<close>

lemma Parent_LeftChild [simp]: "Parent (LeftChild n) = n"
  by (simp add: Parent_def LeftChild_def)

lemma Parent_RightChild [simp]: "Parent (RightChild n) = n"
  by (simp add: Parent_def RightChild_def)

lemma child_cases: "0 < j \<Longrightarrow> j = LeftChild (Parent j) \<or> j = RightChild (Parent j)"
  by (auto simp: Parent_def LeftChild_def RightChild_def)

lemma child_greater [simp]: "n < LeftChild n" "n < RightChild n" "LeftChild n < RightChild n"
  by (simp_all add: LeftChild_def RightChild_def)

lemma child_pos [simp]: "0 < LeftChild n" "0 < RightChild n"
  by (simp_all add: LeftChild_def RightChild_def)

lemma in_sub_refl [simp]: "in_sub n n"
  by (subst in_sub.simps) simp

lemma in_sub_less [simp]: "j < n \<Longrightarrow> \<not> in_sub n j"
  by (subst in_sub.simps) simp

lemma in_sub_step: "n < j \<Longrightarrow> in_sub n j = in_sub n (Parent j)"
  by (subst in_sub.simps) simp

lemma in_sub_le: "in_sub n j \<Longrightarrow> n \<le> j"
  by (rule ccontr) simp

lemma in_sub_0 [simp]: "in_sub 0 j"
proof (induction j rule: less_induct)
  case (less j)
  show ?case
  proof (cases "j = 0")
    case False
    then have "Parent j < j" by (rule Parent_less)
    then show ?thesis
      using less False by (simp add: in_sub_step)
  qed simp
qed

lemma in_sub_parent: "in_sub n j \<Longrightarrow> j \<noteq> n \<Longrightarrow> in_sub n (Parent j)"
  using in_sub_le [of n j] by (simp add: in_sub_step)

lemma in_sub_child: "0 < j \<Longrightarrow> in_sub n (Parent j) \<Longrightarrow> in_sub n j"
  using in_sub_le [of n "Parent j"] Parent_less [of j] by (simp add: in_sub_step)

lemma in_sub_up:
  assumes "in_sub c j" "0 < c"
  shows "in_sub (Parent c) j"
  using assms(1)
proof (induction j rule: less_induct)
  case (less j)
  have pc: "Parent c < c"
    using assms(2) by (simp add: Parent_less)
  show ?case
  proof (cases "j = c")
    case True
    then show ?thesis
      using pc by (simp add: in_sub_step)
  next
    case False
    then have "c < j" "in_sub c (Parent j)"
      using less.prems in_sub_le [of c j] by (simp_all add: in_sub_parent)
    moreover have "Parent j < j"
      using \<open>c < j\<close> by (simp add: Parent_less)
    ultimately show ?thesis
      using less.IH [of "Parent j"] pc by (simp add: in_sub_step)
  qed
qed

lemma in_sub_children:
  assumes "in_sub n j" "j \<noteq> n"
  shows "in_sub (LeftChild n) j \<or> in_sub (RightChild n) j"
  using assms
proof (induction j rule: less_induct)
  case (less j)
  have j: "n < j" "0 < j"
    using less.prems in_sub_le [of n j] by simp_all
  then have pj: "Parent j < j" "in_sub n (Parent j)"
    using less.prems by (simp_all add: Parent_less in_sub_parent)
  show ?case
  proof (cases "Parent j = n")
    case True
    then show ?thesis
      using child_cases [OF j(2)] by auto
  next
    case False
    then have "in_sub (LeftChild n) (Parent j) \<or> in_sub (RightChild n) (Parent j)"
      using less.IH [OF pj(1) pj(2)] by simp
    then show ?thesis
      using j(2) by (auto intro: in_sub_child)
  qed
qed

lemma in_sub_disjoint: "in_sub (LeftChild n) j \<Longrightarrow> \<not> in_sub (RightChild n) j"
proof (induction j rule: less_induct)
  case (less j)
  show ?case
  proof
    assume r: "in_sub (RightChild n) j"
    then have ge: "RightChild n \<le> j"
      by (rule in_sub_le)
    then have lj: "LeftChild n < j" "0 < j"
      by (simp_all add: LeftChild_def RightChild_def)
    then have pl: "in_sub (LeftChild n) (Parent j)" "Parent j < j"
      using less.prems by (simp_all add: in_sub_parent Parent_less)
    show False
    proof (cases "j = RightChild n")
      case True
      then show False
        using pl(1) by simp
    next
      case False
      then have "in_sub (RightChild n) (Parent j)"
        using r by (simp add: in_sub_parent)
      then show False
        using less.IH [OF pl(2) pl(1)] by simp
    qed
  qed
qed

lemma key_Swap_swapped:
  "i < length (heap s) \<Longrightarrow> j < length (heap s) \<Longrightarrow> key (Swap i j s) = swapped (key s) i j"
  by (rule ext) (simp add: key_Swap swapped_def)

lemma swapped_simps:
  "swapped k i j i = k j" "swapped k i j j = k i"
  "x \<noteq> i \<Longrightarrow> x \<noteq> j \<Longrightarrow> swapped k i j x = k x"
  by (simp_all add: swapped_def)


lemma sub_heap_root_min:
  assumes "sub_heap k h n" "in_sub n j" "j < h"
  shows "k n \<le> k j"
  using assms(2,3)
proof (induction j rule: less_induct)
  case (less j)
  show ?case
  proof (cases "j = n")
    case False
    then have j: "n < j" "0 < j" "in_sub n (Parent j)" "Parent j < j"
      using less.prems in_sub_le [of n j] by (simp_all add: in_sub_parent Parent_less)
    then have "k n \<le> k (Parent j)"
      using less.IH [of "Parent j"] less.prems(2) by simp
    moreover have "k (Parent j) \<le> k j"
      using assms(1) j less.prems(2) by (simp add: sub_heap_def)
    ultimately show ?thesis
      by simp
  qed simp
qed

lemma sub_heap_child: "sub_heap k h (Parent c) \<Longrightarrow> 0 < c \<Longrightarrow> sub_heap k h c"
  unfolding sub_heap_def by (blast intro: in_sub_up)

lemma up_pre_swap:
  assumes "up_pre k h n" "n \<noteq> 0" "k n < k (Parent n)"
  shows "up_pre (swapped k n (Parent n)) h (Parent n)"
proof -
  let ?p = "Parent n" and ?k = "swapped k n (Parent n)"
  have pn: "?p < n"
    using assms(2) by (rule Parent_less)
  have e: "k (Parent j) \<le> k j" if "0 < j" "j < h" "j \<noteq> n" for j
    using assms(1) that by (simp add: up_pre_def)
  have g: "k ?p \<le> k j" if "0 < j" "j < h" "Parent j = n" for j
    using assms(1,2) that by (simp add: up_pre_def)
  have kn: "?k n = k ?p" and kp: "?k ?p = k n"
    by (simp_all add: swapped_def)
  have ko: "?k x = k x" if "x \<noteq> n" "x \<noteq> ?p" for x
    using that by (simp add: swapped_def)
  have 1: "?k (Parent j) \<le> ?k j" if j: "0 < j" "j < h" "j \<noteq> ?p" for j
  proof (cases "j = n")
    case True
    then show ?thesis
      using assms(3) kn kp by simp
  next
    case False
    then have kj: "?k j = k j"
      using j ko by simp
    consider "Parent j = n" | "Parent j = ?p" | "Parent j \<noteq> n" "Parent j \<noteq> ?p"
      by blast
    then show ?thesis
    proof cases
      case 1
      then show ?thesis
        using g [OF j(1,2)] kj kn by simp
    next
      case 2
      then have "k ?p \<le> k j"
        using e [OF j(1,2) False] by simp
      then show ?thesis
        using 2 kj kp assms(3) by simp
    next
      case 3
      then show ?thesis
        using e [OF j(1,2) False] kj ko by simp
    qed
  qed
  have 2: "?k (Parent ?p) \<le> ?k j" if j: "0 < j" "j < h" "Parent j = ?p" "?p \<noteq> 0" for j
  proof -
    have ppp: "Parent ?p < ?p"
      using j(4) by (rule Parent_less)
    then have kpp: "?k (Parent ?p) = k (Parent ?p)"
      using pn ko by simp
    have jp: "?p < j"
      using j(1,3) Parent_less [of j] by simp
    then have ph: "0 < ?p" "?p < h" "?p \<noteq> n"
      using j(2,4) pn by simp_all
    have pp: "k (Parent ?p) \<le> k ?p"
      using e [OF ph] .
    show ?thesis
    proof (cases "j = n")
      case True
      then show ?thesis
        using kn kpp pp by simp
    next
      case False
      then have "k ?p \<le> k j"
        using e [OF j(1,2) False] j(3) by simp
      moreover have "?k j = k j"
        using False jp ko by simp
      ultimately show ?thesis
        using kpp pp by simp
    qed
  qed
  show ?thesis
    unfolding up_pre_def using 1 2 by blast
qed

lemma up_pre_done:
  assumes "up_pre k h n" "\<not> (n \<noteq> 0 \<and> k n < k (Parent n))"
  shows "heap_prop k h"
  unfolding heap_prop_def
proof (intro allI impI)
  fix j
  assume j: "0 < j \<and> j < h"
  show "k (Parent j) \<le> k j"
  proof (cases "j = n")
    case True
    then show ?thesis
      using assms(2) j by auto
  next
    case False
    then show ?thesis
      using assms(1) j by (simp add: up_pre_def)
  qed
qed

lemma length_heap_sift_up [simp]: "length (heap (sift_up n s)) = length (heap s)"
  by (induction n s rule: sift_up.induct) (subst sift_up.simps, simp add: Let_def)

lemma heap_ok_sift_up:
  "up_pre (key s) (heap_size s) n \<Longrightarrow> n < length (heap s) \<Longrightarrow> heap_ok (sift_up n s)"
proof (induction n s rule: sift_up.induct)
  case (1 n s)
  let ?p = "Parent n"
  show ?case
  proof (cases "n \<noteq> 0 \<and> key s n < key s ?p")
    case True
    have p: "?p < length (heap s)"
      using "1.prems"(2) Parent_le [of n] by simp
    have "up_pre (key (Swap n ?p s)) (heap_size (Swap n ?p s)) ?p"
      using up_pre_swap [OF "1.prems"(1)] True p "1.prems"(2) by (simp add: key_Swap_swapped)
    then have "heap_ok (sift_up ?p (Swap n ?p s))"
      using "1.IH" [OF refl] True p by simp
    then show ?thesis
      using True by (subst sift_up.simps) (simp add: Let_def)
  next
    case False
    then have "sift_up n s = s"
      by (subst sift_up.simps) (auto simp: Let_def)
    then show ?thesis
      using up_pre_done [OF "1.prems"(1)] False by (simp add: heap_ok_def)
  qed
qed

lemma child_done_noswap: "\<not> (c < h \<and> k c < k n) \<Longrightarrow> child_done n c h k k"
  by (auto simp: child_done_def)

lemma child_done_swap:
  assumes c: "c < h" "k c < k n" "Parent c = n" "0 < c"
    and H: "heapified c h (swapped k c n) k'"
  shows "child_done n c h k k'"
proof -
  let ?k1 = "swapped k c n"
  have nc: "n < c"
    using c(3,4) Parent_less [of c] by simp
  have k1: "?k1 c = k n" "?k1 n = k c" "\<And>x. x \<noteq> c \<Longrightarrow> x \<noteq> n \<Longrightarrow> ?k1 x = k x"
    by (simp_all add: swapped_def)
  have frame: "k' j = ?k1 j" if "\<not> in_sub c j" for j
    using H that by (simp add: heapified_def)
  have kn: "k' n = k c"
    using frame [of n] nc k1(2) by simp
  have 1: "k' j = k j" if "j \<noteq> n" "\<not> in_sub c j" for j
  proof -
    have "j \<noteq> c" using that(2) by auto
    then show ?thesis using frame [OF that(2)] k1(3) that(1) by simp
  qed
  have sub1: "sub_ge ?k1 h c b" if "b \<le> k n" "sub_ge k h c b" for b
    unfolding sub_ge_def
  proof (intro allI impI)
    fix j assume j: "j < h \<and> in_sub c j"
    show "b \<le> ?k1 j"
    proof (cases "j = c")
      case True
      then show ?thesis using that(1) k1(1) by simp
    next
      case False
      then have "j \<noteq> n" using j nc in_sub_le [of c j] by auto
      then show ?thesis using that(2) j False k1(3) by (simp add: sub_ge_def)
    qed
  qed
  have 3: "b \<le> k' n \<and> sub_ge k' h c b" if "b \<le> k n" "sub_ge k h c b" for b
  proof -
    have "b \<le> k c"
      using that(2) c(1) by (simp add: sub_ge_def)
    moreover have "sub_ge k' h c b"
      using H sub1 [OF that] by (simp add: heapified_def)
    ultimately show ?thesis using kn by simp
  qed
  have 4: "sub_heap k' h c \<and> (c < h \<longrightarrow> k' n \<le> k' c)" if sh: "sub_heap k h c"
  proof -
    have below: "sub_heap ?k1 h d" if d: "Parent d = c" "0 < d" for d
      unfolding sub_heap_def
    proof (intro allI impI)
      fix j assume j: "0 < j \<and> j < h \<and> in_sub d (Parent j)"
      have cd: "c < d" using d Parent_less [of d] by simp
      have "d \<le> Parent j" using j by (simp add: in_sub_le)
      moreover have "Parent j < j" using j by (simp add: Parent_less)
      ultimately have "Parent j \<noteq> c" "Parent j \<noteq> n" "j \<noteq> c" "j \<noteq> n"
        using cd nc by simp_all
      moreover have "in_sub c (Parent j)"
        using in_sub_up [of d "Parent j"] j d by simp
      ultimately show "?k1 (Parent j) \<le> ?k1 j"
        using sh j k1(3) by (simp add: sub_heap_def)
    qed
    have "sub_heap ?k1 h (LeftChild c)" "sub_heap ?k1 h (RightChild c)"
      by (simp_all add: below)
    then have a: "sub_heap k' h c"
      using H by (simp add: heapified_def)
    have "sub_ge ?k1 h c (k c)"
      unfolding sub_ge_def
    proof (intro allI impI)
      fix j assume j: "j < h \<and> in_sub c j"
      show "k c \<le> ?k1 j"
      proof (cases "j = c")
        case True
        then show ?thesis using c(2) k1(1) by simp
      next
        case False
        then have "j \<noteq> n" using j nc in_sub_le [of c j] by auto
        then show ?thesis
          using sub_heap_root_min [OF sh, of j] j False k1(3) by simp
      qed
    qed
    then have "sub_ge k' h c (k c)"
      using H by (simp add: heapified_def)
    then have "k c \<le> k' c"
      using c(1) by (simp add: sub_ge_def)
    then show ?thesis
      using a kn by simp
  qed
  show ?thesis
    unfolding child_done_def using 1 3 4 kn c(2) by auto
qed

lemma heapified_compose:
  assumes L: "child_done n (LeftChild n) h k k1"
    and R: "child_done n (RightChild n) h k1 k2"
  shows "heapified n h k k2"
proof -
  let ?l = "LeftChild n" and ?r = "RightChild n"
  have f1: "k1 j = k j" if "j \<noteq> n" "\<not> in_sub ?l j" for j
    using L that by (simp add: child_done_def)
  have f2: "k2 j = k1 j" if "j \<noteq> n" "\<not> in_sub ?r j" for j
    using R that by (simp add: child_done_def)
  have nl: "\<not> in_sub ?l n" "\<not> in_sub ?r n"
    by simp_all
  have lr: "\<not> in_sub ?r j" if "in_sub ?l j" for j
    using that by (rule in_sub_disjoint)
  have rl: "\<not> in_sub ?l j" if "in_sub ?r j" for j
    using that in_sub_disjoint [of n j] by blast
  have up: "in_sub n j" if "in_sub ?l j \<or> in_sub ?r j" for j
    using that in_sub_up [of ?l j] in_sub_up [of ?r j] by auto
  have neq: "j \<noteq> n" if "in_sub ?l j \<or> in_sub ?r j" for j
    using that nl by auto
  have frame: "k2 j = k j" if "\<not> in_sub n j" for j
  proof -
    have "j \<noteq> n" "\<not> in_sub ?l j" "\<not> in_sub ?r j"
      using that up [of j] by auto
    then show ?thesis
      using f1 f2 by simp
  qed
  have bound: "sub_ge k2 h n b" if b: "sub_ge k h n b" for b
  proof -
    have bn: "n < h \<longrightarrow> b \<le> k n" and bl: "sub_ge k h ?l b" and br: "sub_ge k h ?r b"
      using b up by (auto simp: sub_ge_def)
    show ?thesis
      unfolding sub_ge_def
    proof (intro allI impI)
      fix j assume j: "j < h \<and> in_sub n j"
      then have nh: "n < h"
        using in_sub_le [of n j] by simp
      then have b0: "b \<le> k n"
        using bn by simp
      then have s1: "b \<le> k1 n" "sub_ge k1 h ?l b"
        using L bl by (simp_all add: child_done_def)
      have "sub_ge k1 h ?r b"
        unfolding sub_ge_def using br f1 neq rl by (auto simp: sub_ge_def)
      then have s2: "b \<le> k2 n" "sub_ge k2 h ?r b"
        using R s1(1) by (simp_all add: child_done_def)
      have s3: "sub_ge k2 h ?l b"
        unfolding sub_ge_def using s1(2) f2 neq lr by (auto simp: sub_ge_def)
      show "b \<le> k2 j"
      proof (cases "j = n")
        case True
        then show ?thesis using s2(1) by simp
      next
        case False
        then have "in_sub ?l j \<or> in_sub ?r j"
          using j in_sub_children by simp
        then show ?thesis
          using s2(2) s3 j by (auto simp: sub_ge_def)
      qed
    qed
  qed
  have heap: "sub_heap k2 h n" if sl: "sub_heap k h ?l" and sr: "sub_heap k h ?r"
  proof -
    have a1: "sub_heap k1 h ?l" "?l < h \<longrightarrow> k1 n \<le> k1 ?l"
      using L sl by (simp_all add: child_done_def)
    have edge_in: "in_sub c j" if "0 < j" "in_sub c (Parent j)" for c j
      using that by (rule in_sub_child)
    have r1: "sub_heap k1 h ?r"
      unfolding sub_heap_def
    proof (intro allI impI)
      fix j assume j: "0 < j \<and> j < h \<and> in_sub ?r (Parent j)"
      then have "in_sub ?r j"
        using edge_in by simp
      then have "k1 j = k j" "k1 (Parent j) = k (Parent j)"
        using j f1 rl neq by simp_all
      then show "k1 (Parent j) \<le> k1 j"
        using sr j by (simp add: sub_heap_def)
    qed
    then have a2: "sub_heap k2 h ?r" "?r < h \<longrightarrow> k2 n \<le> k2 ?r" "k2 n \<le> k1 n"
      using R by (simp_all add: child_done_def)
    have l2: "sub_heap k2 h ?l"
      unfolding sub_heap_def
    proof (intro allI impI)
      fix j assume j: "0 < j \<and> j < h \<and> in_sub ?l (Parent j)"
      then have "in_sub ?l j"
        using edge_in by simp
      then have "k2 j = k1 j" "k2 (Parent j) = k1 (Parent j)"
        using j f2 lr neq by simp_all
      then show "k2 (Parent j) \<le> k2 j"
        using a1(1) j by (simp add: sub_heap_def)
    qed
    have "k2 ?l = k1 ?l"
      using f2 [of ?l] lr [of ?l] neq [of ?l] by simp
    then have top_l: "?l < h \<longrightarrow> k2 n \<le> k2 ?l"
      using a1(2) a2(3) by auto
    show ?thesis
      unfolding sub_heap_def
    proof (intro allI impI)
      fix j assume j: "0 < j \<and> j < h \<and> in_sub n (Parent j)"
      show "k2 (Parent j) \<le> k2 j"
      proof (cases "Parent j = n")
        case True
        then have "j = ?l \<or> j = ?r"
          using child_cases [of j] j by simp
        then show ?thesis
          using True top_l a2(2) j by auto
      next
        case False
        then have "in_sub ?l (Parent j) \<or> in_sub ?r (Parent j)"
          using j in_sub_children by simp
        then show ?thesis
          using l2 a2(1) j by (auto simp: sub_heap_def)
      qed
    qed
  qed
  show ?thesis
    unfolding heapified_def using frame bound heap by blast
qed

lemma length_heap_Heapify [simp]: "length (heap (Heapify n s)) = length (heap s)"
proof (induction n s rule: Heapify_child_induct)
  case (step n s)
  have 1: "length (heap (Heapify_child n (LeftChild n) s)) = length (heap s)"
    using step(1) by (simp add: Heapify_child_def)
  have "length (heap (Heapify_child n (RightChild n) (Heapify_child n (LeftChild n) s))) =
      length (heap (Heapify_child n (LeftChild n) s))"
    using step(2) by (simp add: Heapify_child_def [of n "RightChild n"])
  then show ?case
    using 1 by (simp add: Heapify_unfold)
qed

lemma length_heap_Heapify_child [simp]:
  "length (heap (Heapify_child n c s)) = length (heap s)"
  by (simp add: Heapify_child_def)

lemma Heapify_child_done:
  assumes "Parent c = n" "0 < c" "heap_size s \<le> length (heap s)"
    and "c < heap_size s \<Longrightarrow> key s c < key s n \<Longrightarrow>
      heapified c (heap_size s) (key (Swap c n s)) (key (Heapify c (Swap c n s)))"
  shows "child_done n c (heap_size s) (key s) (key (Heapify_child n c s))"
proof (cases "c < heap_size s \<and> key s c < key s n")
  case True
  have "n < c"
    using assms(1,2) Parent_less [of c] by simp
  then have "key (Swap c n s) = swapped (key s) c n"
    using True assms(3) by (simp add: key_Swap_swapped)
  then show ?thesis
    using child_done_swap [of c "heap_size s" "key s" n] True assms
    by (simp add: Heapify_child_def)
next
  case False
  then show ?thesis
    using child_done_noswap [of c "heap_size s" "key s" n] by (auto simp: Heapify_child_def)
qed

lemma heapified_Heapify:
  "heap_size s \<le> length (heap s) \<Longrightarrow> heapified n (heap_size s) (key s) (key (Heapify n s))"
proof (induction n s rule: Heapify_child_induct)
  case (step n s)
  let ?l = "LeftChild n" and ?r = "RightChild n"
  let ?s1 = "Heapify_child n ?l s"
  have hs: "heap_size ?s1 \<le> length (heap ?s1)"
    using step.prems by simp
  have "child_done n ?l (heap_size s) (key s) (key ?s1)"
    using step.IH(1) step.prems by (intro Heapify_child_done) simp_all
  moreover have "child_done n ?r (heap_size ?s1) (key ?s1) (key (Heapify_child n ?r ?s1))"
    using step.IH(2) hs by (intro Heapify_child_done) simp_all
  ultimately show ?case
    using heapified_compose [of n "heap_size s" "key s" "key ?s1"]
    by (simp add: Heapify_unfold)
qed

subsection \<open>The heap property is kept\<close>

lemma key_upd [simp]:
  "key (s\<lparr>heap_size := x\<rparr>) = key s" "key (s\<lparr>invoked := y\<rparr>) = key s"
  "key (s\<lparr>timestamp_now := z\<rparr>) = key s"
  by (simp_all add: key_def fun_eq_iff)

lemma heap_ok_upd [simp]:
  "heap_ok (s\<lparr>invoked := y\<rparr>) = heap_ok s" "heap_ok (s\<lparr>timestamp_now := z\<rparr>) = heap_ok s"
  by (simp_all add: heap_ok_def)

lemma heap_ok_Remove:
  assumes ok: "heap_ok s" and len: "length (heap s) = kMaxEvents" and r: "Remove n s = Inr s'"
  shows "heap_ok s'"
proof -
  define h where "h = heap_size s - 1"
  define s1 where "s1 = Swap n h (s\<lparr>heap_size := h\<rparr>)"
  let ?k = "key s" and ?k1 = "key s1" and ?p = "Parent n"
  have b: "heap_size s \<noteq> 0" "heap_size s \<le> kMaxEvents" "n < kMaxEvents"
    using r by (auto simp: Remove_def split: if_splits)
  then have hH: "heap_size s = h + 1" and hl: "h < length (heap s)" and nl: "n < length (heap s)"
    using len by (simp_all add: h_def)
  have hs1: "heap_size s1 = h" "length (heap s1) = length (heap s)"
    by (simp_all add: s1_def)
  have k1: "?k1 = swapped ?k n h"
    using hl nl by (simp add: s1_def key_Swap_swapped)
  have e: "?k (Parent j) \<le> ?k j" if "0 < j" "j \<le> h" for j
    using ok that hH by (simp add: heap_ok_def heap_prop_def)
  have res: "s' = (if n \<noteq> 0 \<and> ?k1 n < ?k1 ?p then sift_up ?p (Swap n ?p s1) else Heapify n s1)"
    using r b by (auto simp: Remove_def Let_def s1_def h_def split: if_splits)
  have up_eq: "sift_up ?p (Swap n ?p s1) = sift_up n s1" if "n \<noteq> 0 \<and> ?k1 n < ?k1 ?p"
    using that by (subst (2) sift_up.simps) (simp add: Let_def)
  have resT: "s' = sift_up n s1" if "n \<noteq> 0 \<and> ?k1 n < ?k1 ?p"
    using res that up_eq by auto
  have resF: "s' = Heapify n s1" if "\<not> (n \<noteq> 0 \<and> ?k1 n < ?k1 ?p)"
    using res that by auto
  show ?thesis
  proof (cases "n < h")
    case False
    have same: "?k1 j = ?k j" if "j < h" for j
      using that False by (simp add: k1 swapped_def)
    have hp: "heap_prop ?k1 h"
      unfolding heap_prop_def
    proof (intro allI impI)
      fix j assume j: "0 < j \<and> j < h"
      then have "Parent j < h"
        using Parent_le [of j] by simp
      then show "?k1 (Parent j) \<le> ?k1 j"
        using j same e [of j] by simp
    qed
    show ?thesis
    proof (cases "n \<noteq> 0 \<and> ?k1 n < ?k1 ?p")
      case True
      have "up_pre ?k1 h n"
        unfolding up_pre_def
      proof (intro conjI allI impI)
        fix j assume "0 < j \<and> j < h \<and> j \<noteq> n"
        then show "?k1 (Parent j) \<le> ?k1 j"
          using hp by (simp add: heap_prop_def)
      next
        fix j assume j: "0 < j \<and> j < h \<and> Parent j = n \<and> n \<noteq> 0"
        then have "n < j"
          using Parent_less [of j] by simp
        then show "?k1 (Parent n) \<le> ?k1 j"
          using j False by simp
      qed
      then have "heap_ok (sift_up n s1)"
        using heap_ok_sift_up [of s1 n] hs1 nl by simp
      then show ?thesis
        using resT [OF True] by simp
    next
      case nocond: False
      have "heapified n h ?k1 (key (Heapify n s1))"
        using heapified_Heapify [of s1 n] hs1 hl by simp
      then have "key (Heapify n s1) j = ?k1 j" if "j < h" for j
        using that False by (simp add: heapified_def)
      moreover have "Parent j < h" if "j < h" for j
        using that Parent_le [of j] by simp
      ultimately have "heap_prop (key (Heapify n s1)) h"
        using hp by (simp add: heap_prop_def)
      then show ?thesis
        using resF [OF nocond] hs1 by (simp add: heap_ok_def)
    qed
  next
    case True
    have kn: "?k1 n = ?k h"
      by (simp add: k1 swapped_def)
    have same: "?k1 j = ?k j" if "j < h" "j \<noteq> n" for j
      using that by (simp add: k1 swapped_def)
    show ?thesis
    proof (cases "n \<noteq> 0 \<and> ?k1 n < ?k1 ?p")
      case cond: True
      then have pn: "?p < n"
        by (simp add: Parent_less)
      then have kp: "?k1 ?p = ?k ?p"
        using True same by simp
      have pk: "?k ?p \<le> ?k n"
        using e [of n] cond True by simp
      have "up_pre ?k1 h n"
        unfolding up_pre_def
      proof (intro conjI allI impI)
        fix j assume j: "0 < j \<and> j < h \<and> j \<noteq> n"
        then have pj: "Parent j < h"
          using Parent_le [of j] by simp
        show "?k1 (Parent j) \<le> ?k1 j"
        proof (cases "Parent j = n")
          case True
          have "?k1 n < ?k ?p"
            using cond kp by simp
          also have "\<dots> \<le> ?k n"
            by (rule pk)
          also have "\<dots> \<le> ?k j"
            using e [of j] j True by simp
          finally have "?k1 n \<le> ?k j"
            by simp
          then show ?thesis
            using True j same by simp
        next
          case False
          then show ?thesis
            using e [of j] j pj same by simp
        qed
      next
        fix j assume j: "0 < j \<and> j < h \<and> Parent j = n \<and> n \<noteq> 0"
        then have "n < j"
          using Parent_less [of j] by simp
        then have "?k1 j = ?k j" "?k n \<le> ?k j"
          using j same e [of j] by simp_all
        then show "?k1 (Parent n) \<le> ?k1 j"
          using kp pk by simp
      qed
      then have "heap_ok (sift_up n s1)"
        using heap_ok_sift_up [of s1 n] hs1 nl by simp
      then show ?thesis
        using resT [OF cond] by simp
    next
      case nocond: False
      let ?k' = "key (Heapify n s1)"
      have H: "heapified n h ?k1 ?k'"
        using heapified_Heapify [of s1 n] hs1 hl by simp
      have below: "sub_heap ?k1 h c" if c: "Parent c = n" "0 < c" for c
        unfolding sub_heap_def
      proof (intro allI impI)
        fix j assume j: "0 < j \<and> j < h \<and> in_sub c (Parent j)"
        have "n < c"
          using c Parent_less [of c] by simp
        moreover have "c \<le> Parent j" "Parent j < j"
          using j by (simp_all add: in_sub_le Parent_less)
        ultimately show "?k1 (Parent j) \<le> ?k1 j"
          using j same e [of j] by simp
      qed
      have sh: "sub_heap ?k' h n"
        using H below by (simp add: heapified_def)
      have frame: "?k' j = ?k1 j" if "\<not> in_sub n j" for j
        using H that by (simp add: heapified_def)
      have top: "?k' ?p \<le> ?k' n" if n0: "n \<noteq> 0"
      proof -
        have pn: "?p < n"
          using n0 by (rule Parent_less)
        have kp: "?k1 ?p = ?k ?p" "?k' ?p = ?k1 ?p"
          using pn True same frame by simp_all
        have "sub_ge ?k1 h n (?k ?p)"
          unfolding sub_ge_def
        proof (intro allI impI)
          fix j assume j: "j < h \<and> in_sub n j"
          show "?k ?p \<le> ?k1 j"
          proof (cases "j = n")
            case True
            then show ?thesis
              using nocond n0 kp by simp
          next
            case False
            have "sub_heap ?k (h + 1) n"
              using ok hH by (simp add: heap_ok_def heap_prop_def sub_heap_def)
            then have "?k n \<le> ?k j"
              using sub_heap_root_min [of ?k "h + 1" n j] j by simp
            moreover have "?k ?p \<le> ?k n"
              using e [of n] n0 True by simp
            ultimately show ?thesis
              using same j False by simp
          qed
        qed
        then have "sub_ge ?k' h n (?k ?p)"
          using H by (simp add: heapified_def)
        then show ?thesis
          using True kp by (simp add: sub_ge_def)
      qed
      have "heap_prop ?k' h"
        unfolding heap_prop_def
      proof (intro allI impI)
        fix j assume j: "0 < j \<and> j < h"
        show "?k' (Parent j) \<le> ?k' j"
        proof (cases "in_sub n (Parent j)")
          case True
          then show ?thesis
            using sh j by (simp add: sub_heap_def)
        next
          case out: False
          show ?thesis
          proof (cases "j = n")
            case True
            then show ?thesis
              using top j by simp
          next
            case False
            then have nj: "\<not> in_sub n j"
              using out in_sub_parent by blast
            have "Parent j < h" "Parent j \<noteq> n"
              using j out Parent_le [of j] by auto
            then show ?thesis
              using frame [OF nj] frame [OF out] same False j e [of j] by simp
          qed
        qed
      qed
      then show ?thesis
        using resF [OF nocond] hs1 by (simp add: heap_ok_def)
    qed
  qed
qed

lemma heap_ok_Add:
  assumes "pool_ok s" "heap_ok s" "Add delay cb s = Inr (e, s')"
  shows "heap_ok s'"
proof -
  let ?n = "heap_size s"
  let ?s1 = "s\<lparr>heap_size := heap_size s + 1,
               events := (events s)(heap s ! heap_size s :=
                 (events s (heap s ! heap_size s))
                   \<lparr>timestamp := timestamp_now s + delay, callback := cb\<rparr>)\<rparr>"
  have lt: "?n < kMaxEvents"
    using assms(3) Add_error [of delay cb s CapacityExceeded]
    by (cases "heap_size s < kMaxEvents") auto
  have len: "length (heap s) = kMaxEvents" and d: "distinct (heap s)"
    using assms(1) by (simp_all add: pool_ok_def)
  have eq: "s' = sift_up ?n ?s1"
    using assms(3) Add_Inr [OF lt, of delay cb] by auto
  have same: "key ?s1 j = key s j" if "j < ?n" for j
    using that lt len d by (simp add: key_def nth_eq_iff_index_eq)
  have "up_pre (key ?s1) (heap_size ?s1) ?n"
    unfolding up_pre_def
  proof (intro conjI allI impI)
    fix j assume j: "0 < j \<and> j < heap_size ?s1 \<and> j \<noteq> ?n"
    then have "j < ?n" "Parent j < ?n"
      using Parent_le [of j] by simp_all
    then show "key ?s1 (Parent j) \<le> key ?s1 j"
      using same assms(2) j by (simp add: heap_ok_def heap_prop_def)
  next
    fix j assume j: "0 < j \<and> j < heap_size ?s1 \<and> Parent j = ?n \<and> ?n \<noteq> 0"
    then have False
      using Parent_less [of j] by auto
    then show "key ?s1 (Parent ?n) \<le> key ?s1 j" ..
  qed
  then show ?thesis
    unfolding eq using lt len by (intro heap_ok_sift_up) simp_all
qed

lemma heap_ok_Cancel:
  "pool_ok s \<Longrightarrow> heap_ok s \<Longrightarrow> Cancel e s = Inr s' \<Longrightarrow> heap_ok s'"
  by (auto simp: Cancel_def pool_ok_def split: if_splits intro: heap_ok_Remove)

lemma heap_ok_do_request:
  "pool_ok s \<Longrightarrow> heap_ok s \<Longrightarrow> do_request r s = Inr s' \<Longrightarrow> heap_ok s'"
  by (auto simp: do_request_Inr dest: heap_ok_Add heap_ok_Cancel)

lemma heap_ok_do_requests:
  assumes "pool_ok s" "heap_ok s" "do_requests rs s = Inr s'"
  shows "heap_ok s'"
proof -
  have "pool_ok s' \<and> heap_ok s'"
    using assms(3)
  proof (induction rule: do_requests_induct)
    case start
    show ?case
      using assms by simp
  next
    case request
    then show ?case
      by (auto dest: pool_ok_do_request heap_ok_do_request)
  qed
  then show ?thesis ..
qed

lemma heap_ok_called [simp]: "heap_ok (called s) = heap_ok s"
  by (simp add: called_def heap_ok_def key_def)

lemma heap_ok_fire:
  assumes "pool_ok s" "heap_ok s" "fire H s = Inr s'"
  shows "heap_ok s'"
proof -
  obtain l s2 where s2: "do_requests (H l (called s)) (called s) = Inr s2"
    "Remove (handle (events s2 (heap s ! 0))) s2 = Inr s'"
    using assms(3) by (auto simp: fire_Inr)
  have "pool_ok s2" "heap_ok s2"
    using pool_ok_do_requests [OF _ s2(1)] heap_ok_do_requests [OF _ _ s2(1)] assms(1,2)
    by simp_all
  then show ?thesis
    using s2(2) by (auto simp: pool_ok_def intro: heap_ok_Remove)
qed

lemma heap_ok_drains: "drains H t s u \<Longrightarrow> pool_ok s \<Longrightarrow> heap_ok s \<Longrightarrow> heap_ok u"
proof (induction rule: drains.induct)
  case enter
  then show ?case by simp
next
  case (again u u')
  then show ?case
    using pool_ok_drains [of H t s u] by (auto dest: heap_ok_fire)
qed

lemma heap_ok_Step: "pool_ok s \<Longrightarrow> heap_ok s \<Longrightarrow> Step H t s = Some (Inr s') \<Longrightarrow> heap_ok s'"
  by (auto dest: Step_drains heap_ok_drains)

lemma heap_ok_AddCycles:
  "pool_ok s \<Longrightarrow> heap_ok s \<Longrightarrow> AddCycles H c s = Some (Inr s') \<Longrightarrow> heap_ok s'"
  by (auto simp: AddCycles_Inr dest: heap_ok_Step)

lemma heap_ok_perform:
  "pool_ok s \<Longrightarrow> heap_ok s \<Longrightarrow> perform H c s = Some (Inr s') \<Longrightarrow> heap_ok s'"
  by (auto simp: perform_Inr dest: heap_ok_Add heap_ok_Cancel heap_ok_AddCycles)

lemma heap_ok_run:
  assumes "pool_ok s" "heap_ok s" "run H cs s = Some (Inr s')"
  shows "heap_ok s'"
proof -
  have "pool_ok s' \<and> heap_ok s'"
    using assms(3)
  proof (induction rule: run_induct)
    case start
    show ?case
      using assms by simp
  next
    case call
    then show ?case
      by (auto dest: pool_ok_perform heap_ok_perform)
  qed
  then show ?thesis ..
qed

lemma heap_ok_run_new:
  assumes "run_new H cs = Some (Inr s)"
  shows "heap_ok s"
proof -
  obtain s0 where s0: "Scheduler = Inr s0" "pool_ok s0" "heap_size s0 = 1"
    using Scheduler_Inr by blast
  have "heap_ok s0"
    using s0(3) by (simp add: heap_ok_def heap_prop_def)
  moreover from assms have "run H cs s0 = Some (Inr s)"
    unfolding run_new_def s0(1) by simp
  ultimately show ?thesis
    using s0(2) heap_ok_run by blast
qed

subsection \<open>The pending events\<close>

lemma pending_upd [simp]:
  "pending (s\<lparr>invoked := y\<rparr>) = pending s" "pending (s\<lparr>timestamp_now := z\<rparr>) = pending s"
  by (simp_all add: pending_def)

lemma pending_Swap:
  assumes "i < heap_size s" "j < heap_size s" "heap_size s \<le> length (heap s)"
  shows "mset (pending (Swap i j s)) = mset (pending s)"
proof -
  let ?t = "take (heap_size s) (heap s)"
  have "take (heap_size s) ((heap s)[i := heap s ! j, j := heap s ! i]) =
      ?t[i := ?t ! j, j := ?t ! i]"
    using assms by (simp add: take_update_swap)
  moreover have "mset (?t[i := ?t ! j, j := ?t ! i]) = mset ?t"
    using mset_swap [of j ?t i] assms by simp
  ultimately show ?thesis
    by (simp add: pending_def heap_Swap)
qed

lemma pending_sift_up:
  "n < heap_size s \<Longrightarrow> heap_size s \<le> length (heap s) \<Longrightarrow>
   mset (pending (sift_up n s)) = mset (pending s)"
proof (induction n s rule: sift_up.induct)
  case (1 n s)
  have p: "Parent n < heap_size s"
    using "1.prems"(1) Parent_le [of n] by simp
  show ?case
  proof (cases "n \<noteq> 0 \<and> key s n < key s (Parent n)")
    case True
    then have "mset (pending (sift_up (Parent n) (Swap n (Parent n) s))) =
        mset (pending (Swap n (Parent n) s))"
      using "1.IH" [OF refl] p "1.prems" by simp
    then show ?thesis
      using True p "1.prems" by (subst sift_up.simps) (simp add: Let_def pending_Swap)
  next
    case False
    then show ?thesis
      by (subst sift_up.simps) (auto simp: Let_def)
  qed
qed

lemma pending_Heapify_child:
  assumes "n < c" "heap_size s \<le> length (heap s)"
    and "c < heap_size s \<Longrightarrow> key s c < key s n \<Longrightarrow>
      mset (pending (Heapify c (Swap c n s))) = mset (pending (Swap c n s))"
  shows "mset (pending (Heapify_child n c s)) = mset (pending s)"
  using assms by (auto simp: Heapify_child_def pending_Swap)

lemma pending_Heapify:
  "heap_size s \<le> length (heap s) \<Longrightarrow> mset (pending (Heapify n s)) = mset (pending s)"
proof (induction n s rule: Heapify_child_induct)
  case (step n s)
  let ?s1 = "Heapify_child n (LeftChild n) s"
  have 1: "mset (pending ?s1) = mset (pending s)"
    using step.IH(1) step.prems by (intro pending_Heapify_child) simp_all
  have "mset (pending (Heapify_child n (RightChild n) ?s1)) = mset (pending ?s1)"
    using step.IH(2) step.prems by (intro pending_Heapify_child) simp_all
  then show ?case
    using 1 by (simp add: Heapify_unfold)
qed

subsection \<open>What the heap operations leave alone\<close>

lemma events_sift_up [simp]:
  "timestamp (events (sift_up n s) e) = timestamp (events s e)"
  "callback (events (sift_up n s) e) = callback (events s e)"
  "timestamp_now (sift_up n s) = timestamp_now s"
  "invoked (sift_up n s) = invoked s"
  by (induction n s rule: sift_up.induct; subst sift_up.simps; simp add: Let_def)+

lemma events_Heapify_child:
  assumes "c < heap_size s \<Longrightarrow> key s c < key s n \<Longrightarrow> P (Heapify c (Swap c n s)) = P (Swap c n s)"
    and "P (Swap c n s) = P s"
  shows "P (Heapify_child n c s) = P s"
  using assms by (auto simp: Heapify_child_def)

lemma timestamp_Heapify [simp]:
  "timestamp (events (Heapify n s) e) = timestamp (events s e)"
proof (induction n s rule: Heapify_child_induct)
  case (step n s)
  let ?P = "\<lambda>s. timestamp (events s e)"
  have "?P (Heapify_child n (RightChild n) (Heapify_child n (LeftChild n) s)) =
      ?P (Heapify_child n (LeftChild n) s)"
    using step.IH(2) by (intro events_Heapify_child [of _ _ _ ?P]) simp_all
  moreover have "?P (Heapify_child n (LeftChild n) s) = ?P s"
    using step.IH(1) by (intro events_Heapify_child [of _ _ _ ?P]) simp_all
  ultimately show ?case
    by (simp add: Heapify_unfold)
qed

lemma callback_Heapify [simp]:
  "callback (events (Heapify n s) e) = callback (events s e)"
proof (induction n s rule: Heapify_child_induct)
  case (step n s)
  let ?P = "\<lambda>s. callback (events s e)"
  have "?P (Heapify_child n (RightChild n) (Heapify_child n (LeftChild n) s)) =
      ?P (Heapify_child n (LeftChild n) s)"
    using step.IH(2) by (intro events_Heapify_child [of _ _ _ ?P]) simp_all
  moreover have "?P (Heapify_child n (LeftChild n) s) = ?P s"
    using step.IH(1) by (intro events_Heapify_child [of _ _ _ ?P]) simp_all
  ultimately show ?case
    by (simp add: Heapify_unfold)
qed

lemma timestamp_now_Heapify [simp]: "timestamp_now (Heapify n s) = timestamp_now s"
proof (induction n s rule: Heapify_child_induct)
  case (step n s)
  have "timestamp_now (Heapify_child n (RightChild n) (Heapify_child n (LeftChild n) s)) =
      timestamp_now (Heapify_child n (LeftChild n) s)"
    using step.IH(2) by (intro events_Heapify_child [of _ _ _ timestamp_now]) simp_all
  moreover have "timestamp_now (Heapify_child n (LeftChild n) s) = timestamp_now s"
    using step.IH(1) by (intro events_Heapify_child [of _ _ _ timestamp_now]) simp_all
  ultimately show ?case
    by (simp add: Heapify_unfold)
qed

lemma invoked_Heapify [simp]: "invoked (Heapify n s) = invoked s"
proof (induction n s rule: Heapify_child_induct)
  case (step n s)
  have "invoked (Heapify_child n (RightChild n) (Heapify_child n (LeftChild n) s)) =
      invoked (Heapify_child n (LeftChild n) s)"
    using step.IH(2) by (intro events_Heapify_child [of _ _ _ invoked]) simp_all
  moreover have "invoked (Heapify_child n (LeftChild n) s) = invoked s"
    using step.IH(1) by (intro events_Heapify_child [of _ _ _ invoked]) simp_all
  ultimately show ?case
    by (simp add: Heapify_unfold)
qed

lemma Remove_frame:
  assumes "Remove n s = Inr s'"
  shows "timestamp (events s' e) = timestamp (events s e)"
    and "callback (events s' e) = callback (events s e)"
    and "timestamp_now s' = timestamp_now s"
    and "invoked s' = invoked s"
  using assms by (auto simp: Remove_def Let_def split: if_splits)

lemma pending_Remove:
  assumes p: "pool_ok s" and ok: "heap_ok s" and n: "n < heap_size s"
  shows "\<exists>s'. Remove n s = Inr s' \<and> mset (pending s') = mset (pending s) - {#heap s ! n#}"
proof -
  define h where "h = heap_size s - 1"
  define s1 where "s1 = Swap n h (s\<lparr>heap_size := h\<rparr>)"
  let ?p = "Parent n"
  have len: "length (heap s) = kMaxEvents" and le: "heap_size s \<le> kMaxEvents"
    using p by (simp_all add: pool_ok_def)
  then have hH: "heap_size s = h + 1" and hl: "h < length (heap s)" and nl: "n < length (heap s)"
    and nh: "n \<le> h" and hs1: "heap_size s1 = h"
    using n by (simp_all add: h_def s1_def)
  have res: "Remove n s =
      Inr (if n \<noteq> 0 \<and> key s1 n < key s1 ?p then sift_up ?p (Swap n ?p s1) else Heapify n s1)"
    using n le by (simp add: Remove_def Let_def s1_def h_def kMaxEvents_def)
  have up_eq: "sift_up ?p (Swap n ?p s1) = sift_up n s1" if "n \<noteq> 0 \<and> key s1 n < key s1 ?p"
    using that by (subst (2) sift_up.simps) (simp add: Let_def)
  have "pending s = take h (heap s) @ [heap s ! h]"
    using hl by (simp add: pending_def hH take_Suc_conv_app_nth)
  then have ps: "mset (pending s) = mset (take h (heap s)) + {#heap s ! h#}"
    by simp
  have heap1: "heap s1 = (heap s)[n := heap s ! h, h := heap s ! n]"
    by (simp add: s1_def heap_Swap)
  have p1: "mset (pending s1) = mset (pending s) - {#heap s ! n#}"
  proof (cases "n < h")
    case True
    then have "pending s1 = (take h (heap s))[n := heap s ! h]"
      using hl by (simp add: pending_def hs1 heap1 take_update_swap list_update_beyond)
    moreover have "take h (heap s) ! n = heap s ! n" "n < length (take h (heap s))"
      using True hl by simp_all
    ultimately have "mset (pending s1) = mset (take h (heap s)) - {#heap s ! n#} + {#heap s ! h#}"
      by (simp add: mset_update)
    moreover have "heap s ! n \<in># mset (take h (heap s))"
      using True hl by (simp add: in_set_conv_nth) (metis nth_take)
    ultimately show ?thesis
      using ps by simp
  next
    case False
    then have "n = h" using nh by simp
    then have "pending s1 = take h (heap s)"
      by (simp add: pending_def hs1 heap1)
    then show ?thesis
      using ps \<open>n = h\<close> by simp
  qed
  have hs1l: "heap_size s1 \<le> length (heap s1)"
    using hl hs1 by (simp add: s1_def)
  show ?thesis
  proof (cases "n \<noteq> 0 \<and> key s1 n < key s1 ?p")
    case True
    have "n < h"
    proof (rule ccontr)
      assume "\<not> n < h"
      then have "n = h" using nh by simp
      then have "key s1 = key s"
        using hl by (simp add: s1_def key_Swap_swapped swapped_def fun_eq_iff)
      moreover have "key s ?p \<le> key s n"
        using ok True n by (simp add: heap_ok_def heap_prop_def)
      ultimately show False
        using True by (auto simp: not_less [symmetric])
    qed
    then have "mset (pending (sift_up n s1)) = mset (pending s1)"
      using hs1 hs1l by (simp add: pending_sift_up)
    then show ?thesis
      using res True up_eq p1 by simp
  next
    case False
    have "mset (pending (Heapify n s1)) = mset (pending s1)"
      using hs1l by (rule pending_Heapify)
    then show ?thesis
      using res False p1 by auto
  qed
qed

lemma pending_index:
  assumes "pool_ok s" "e \<in> set (pending s)"
  shows "handle (events s e) < heap_size s" "heap s ! handle (events s e) = e" "e < kMaxEvents"
proof -
  have len: "length (heap s) = kMaxEvents" "heap_size s \<le> kMaxEvents"
    using assms(1) by (simp_all add: pool_ok_def)
  from assms(2) obtain i where i: "i < heap_size s" "heap s ! i = e"
    using len by (auto simp: pending_def in_set_conv_nth)
  then have "handle (events s e) = i"
    using assms(1) len by (auto simp: pool_ok_def)
  then show "handle (events s e) < heap_size s" "heap s ! handle (events s e) = e"
    using i by simp_all
  have "e \<in> set (heap s)"
    using assms(2) by (auto simp: pending_def dest: in_set_takeD)
  then show "e < kMaxEvents"
    using assms(1) by (simp add: pool_ok_def)
qed

lemma distinct_pending: "pool_ok s \<Longrightarrow> distinct (pending s)"
  by (simp add: pool_ok_def pending_def)

lemma pending_Cancel:
  assumes "pool_ok s" "heap_ok s" "e \<in> set (pending s)"
  shows "\<exists>s'. Cancel e s = Inr s' \<and> pool_ok s' \<and> heap_ok s' \<and>
           mset (pending s') = mset (pending s) - {#e#} \<and> e \<notin> set (pending s') \<and>
           invoked s' = invoked s \<and> timestamp_now s' = timestamp_now s \<and>
           (\<forall>x. timestamp (events s' x) = timestamp (events s x) \<and>
                callback (events s' x) = callback (events s x))"
proof -
  note i = pending_index [OF assms(1,3)]
  obtain s' where s': "Remove (handle (events s e)) s = Inr s'"
    "mset (pending s') = mset (pending s) - {#e#}"
    using pending_Remove [OF assms(1,2) i(1)] i(2) by auto
  then have c: "Cancel e s = Inr s'"
    using i(3) by (simp add: Cancel_def)
  have "count (mset (pending s)) e \<le> 1"
    using distinct_pending [OF assms(1)] by (simp add: distinct_count_atmost_1)
  then have "count (mset (pending s')) e = 0"
    using s'(2) by simp
  then have "e \<notin> set (pending s')"
    by (simp add: count_eq_zero_iff)
  then show ?thesis
    using c s'(2) pool_ok_Cancel [OF assms(1) c] heap_ok_Cancel [OF assms(1,2) c]
      Remove_frame [OF s'(1)]
    by simp
qed









subsection \<open>One turn of the loop of \<open>Step\<close>\<close>

lemma called_simps [simp]:
  "heap (called s) = heap s" "heap_size (called s) = heap_size s" "events (called s) = events s"
  "timestamp_now (called s) = key s 0" "pending (called s) = pending s"
  "invoked (called s) = invoked s @ [(heap s ! 0, callback (events s (heap s ! 0)), key s 0)]"
  by (simp_all add: called_def pending_def)
















subsection \<open>The loop of \<open>Step\<close>\<close>





subsection \<open>When the loop of \<open>Step\<close> ends\<close>



subsection \<open>When the loop of \<open>Step\<close> does not abort\<close>





subsection \<open>\<open>AddCycles\<close>\<close>


subsection \<open>A callback that no pending event has\<close>

lemma unused_upd [simp]:
  "unused c (s\<lparr>invoked := y\<rparr>) = unused c s" "unused c (s\<lparr>timestamp_now := z\<rparr>) = unused c s"
  by (simp_all add: unused_def)









section \<open>Properties of the memory accessors\<close>

subsection \<open>Masks and bytes\<close>

lemma unat_split_mask: "unat (x::u32) = unat (x AND NOT m) + unat (x AND m)"
proof -
  have "(x AND NOT m) AND (x AND m) = 0"
    by (simp add: bit_eq_iff bit_simps)
  then have "(x AND NOT m) + (x AND m) = (x AND NOT m) OR (x AND m)"
    by (simp add: disjunctive_add_eq_or)
  also have "\<dots> = x"
    by (auto simp add: bit_eq_iff bit_simps)
  finally have e: "(x AND NOT m) + (x AND m) = x" .
  have "unat ((x AND NOT m) + (x AND m)) = unat (x AND NOT m) + unat (x AND m)"
    by (metis e unat_plus_simple word_and_le2)
  then show ?thesis
    by (simp add: e)
qed

lemma unat_and_le: "unat ((x::u32) AND m) \<le> unat m"
  using word_and_le1 [of x m] by (simp add: word_le_nat_alt)

lemma and_exp_cases: "(x::u32) AND 2 ^ n = 0 \<or> x AND 2 ^ n = 2 ^ n"
proof (cases "bit x n")
  case True
  have "x AND 2 ^ n = 2 ^ n"
    by (rule bit_word_eqI) (use True in \<open>auto simp add: bit_simps\<close>)
  then show ?thesis ..
next
  case False
  have "x AND 2 ^ n = 0"
    by (rule bit_word_eqI) (use False in \<open>auto simp add: bit_simps\<close>)
  then show ?thesis ..
qed

lemma unat_and_1: "unat ((x::u32) AND 1) \<le> 1"
  using unat_and_le [of x 1] by simp

lemma aligned_and: "aligned a (2 ^ k) \<Longrightarrow> aligned (a AND m) (2 ^ k)"
  unfolding aligned_def and_mask_dvd_nat
  by (metis and.assoc and.commute and_zero_eq)

lemma aligned_and_2: "aligned a 2 \<Longrightarrow> aligned (a AND m) 2"
  using aligned_and [of a 1 m] by simp

lemma aligned_and_4: "aligned a 4 \<Longrightarrow> aligned (a AND m) 4"
  using aligned_and [of a 2 m] by simp

lemma byte_replicated: "(ucast (v::u8) :: u16) * 0x0101 = ucast v OR push_bit 8 (ucast v)"
proof -
  have "(ucast v :: u16) * 0x0101 = ucast v + push_bit 8 (ucast v)"
    by (simp add: push_bit_eq_mult algebra_simps)
  also have "\<dots> = ucast v OR push_bit 8 (ucast v)"
    by (rule disjunctive_add_eq_or, rule bit_word_eqI)
      (auto simp add: bit_simps dest: bit_imp_le_length)
  finally show ?thesis .
qed

lemma byte_replicated_low: "ucast (ucast (v::u8) * 0x0101 :: u16) = v"
  unfolding byte_replicated
  by (rule bit_word_eqI) (auto simp add: bit_simps dest: bit_imp_le_length)

lemma byte_replicated_high: "ucast (drop_bit 8 (ucast (v::u8) * 0x0101 :: u16)) = v"
  unfolding byte_replicated
  by (rule bit_word_eqI) (auto simp add: bit_simps dest: bit_imp_le_length)

lemma bytes_u16:
  "ucast (ucast (v::u16) :: u8) OR push_bit 8 (ucast (ucast (drop_bit 8 v) :: u8)) = v"
  by (rule bit_word_eqI) (auto simp add: bit_simps)

lemma bytes_u32:
  "ucast (ucast (v::u32) :: u8) OR push_bit 8 (ucast (ucast (drop_bit 8 v) :: u8)) OR
   push_bit 16 (ucast (ucast (drop_bit 16 v) :: u8)) OR
   push_bit 24 (ucast (ucast (drop_bit 24 v) :: u8)) = v"
  apply (rule bit_word_eqI)
  apply (auto simp add: bit_simps)
  using nat_diff_split_asm semiring_norm(3) by fastforce

lemma read_write_u16:
  "offset + 2 \<le> length data \<Longrightarrow>
   \<exists>m. write_u16 data offset v = Some m \<and> length m = length data \<and> read_u16 m offset = Some v"
  by (simp add: write_u16_def read_u16_def bytes_u16)

lemma read_write_u32:
  "offset + 4 \<le> length data \<Longrightarrow>
   \<exists>m. write_u32 data offset v = Some m \<and> length m = length data \<and> read_u32 m offset = Some v"
  by (simp add: write_u32_def read_u32_def bytes_u32)

subsection \<open>Offsets\<close>

lemma mirror_mask: "(a AND 0x1FFFF) AND NOT 0x8000 = a AND (0x17FFF :: u32)"
proof -
  have "(0x1FFFF :: u32) AND NOT 0x8000 = 0x17FFF"
    by simp
  then show ?thesis
    by (metis and.assoc)
qed

lemma mirror_mask_neg: "(a AND 0x1FFFF) AND - 0x8001 = a AND (0x17FFF :: u32)"
  using mirror_mask [of a] by simp

lemma vram_offset_less: "unat (vram_offset a) < 0x18000"
proof (cases "a AND 0x1FFFF \<ge> 0x18000")
  case True
  then have "vram_offset a = a AND 0x17FFF"
    by (simp add: vram_offset_def mirror_mask_neg)
  then show ?thesis
    using unat_and_le [of a "0x17FFF"] by simp
next
  case False
  then show ?thesis
    by (simp add: vram_offset_def word_le_nat_alt)
qed

lemma vram_offset_aligned: "aligned a (2 ^ k) \<Longrightarrow> aligned (vram_offset a) (2 ^ k)"
  by (simp add: vram_offset_def Let_def aligned_and)

lemma pram_offset_le: "unat (a AND (0x3FF::u32)) \<le> 0x3FF" "unat (a AND (0x3FE::u32)) \<le> 0x3FE"
  using unat_and_le [of a "0x3FF"] unat_and_le [of a "0x3FE"] by simp_all

lemma aligned_bound:
  "aligned x 2 \<Longrightarrow> unat x < 2 * n \<Longrightarrow> unat x + 2 \<le> 2 * n"
  "aligned x 4 \<Longrightarrow> unat x < 4 * n \<Longrightarrow> unat x + 4 \<le> 4 * n"
  unfolding aligned_def by presburger+

lemma ReadVRAM_offset:
  "ReadVRAM_u8 a p = read_u8 (vram p) (unat (vram_offset a))"
  "ReadVRAM_u16 a p = read_u16 (vram p) (unat (vram_offset a))"
  "ReadVRAM_u32 a p = read_u32 (vram p) (unat (vram_offset a))"
  by (simp_all add: ReadVRAM_u8_def ReadVRAM_u16_def ReadVRAM_u32_def vram_offset_def Let_def)

lemma WriteVRAM_offset:
  "WriteVRAM_u8 a v8 p =
     (if vram_offset a < (if dispcnt_mode p \<ge> 3 then 0x14000 else 0x10000)
      then (case write_u16 (vram p) (unat (vram_offset a AND NOT 1)) (ucast v8 * 0x0101) of
              None \<Rightarrow> None | Some m \<Rightarrow> Some (Sync (p\<lparr>vram := m\<rparr>)))
      else Some (Sync p))"
  "WriteVRAM_u16 a v16 p =
     (case write_u16 (vram p) (unat (vram_offset a)) v16 of
        None \<Rightarrow> None | Some m \<Rightarrow> Some (Sync (p\<lparr>vram := m\<rparr>)))"
  "WriteVRAM_u32 a v32 p =
     (case write_u32 (vram p) (unat (vram_offset a)) v32 of
        None \<Rightarrow> None | Some m \<Rightarrow> Some (Sync (p\<lparr>vram := m\<rparr>)))"
  by (simp_all add: WriteVRAM_u8_def WriteVRAM_u16_def WriteVRAM_u32_def vram_offset_def Let_def)

lemma pram_bounds:
  "unat (a AND (0x3FF::u32)) + 1 \<le> 0x400"
  "unat (a AND (0x3FE::u32)) + 2 \<le> 0x400"
  "aligned a 2 \<Longrightarrow> unat (a AND (0x3FF::u32)) + 2 \<le> 0x400"
  "aligned a 4 \<Longrightarrow> unat (a AND (0x3FF::u32)) + 4 \<le> 0x400"
proof -
  show "unat (a AND (0x3FF::u32)) + 1 \<le> 0x400" "unat (a AND (0x3FE::u32)) + 2 \<le> 0x400"
    using pram_offset_le [of a] by simp_all
  show "unat (a AND (0x3FF::u32)) + 2 \<le> 0x400" if "aligned a 2"
    using aligned_bound(1) [OF aligned_and_2 [OF that], of "0x3FF" "0x200"] pram_offset_le(1) [of a]
    by simp
  show "unat (a AND (0x3FF::u32)) + 4 \<le> 0x400" if "aligned a 4"
    using aligned_bound(2) [OF aligned_and_4 [OF that], of "0x3FF" "0x100"] pram_offset_le(1) [of a]
    by simp
qed

lemma vram_bounds:
  "unat (vram_offset a) + 1 \<le> 0x18000"
  "unat (vram_offset a AND NOT 1) + 2 \<le> 0x18000"
  "aligned a 2 \<Longrightarrow> unat (vram_offset a) + 2 \<le> 0x18000"
  "aligned a 4 \<Longrightarrow> unat (vram_offset a) + 4 \<le> 0x18000"
proof -
  show "unat (vram_offset a) + 1 \<le> 0x18000"
    using vram_offset_less [of a] by simp
  have "aligned (vram_offset a AND NOT 1) 2"
    unfolding aligned_def using and_mask_dvd_nat [of 1 "vram_offset a AND NOT 1"]
    by (simp add: and.assoc)
  moreover have "unat (vram_offset a AND NOT 1) \<le> unat (vram_offset a)"
    using unat_split_mask [of "vram_offset a" 1] by simp
  ultimately show "unat (vram_offset a AND NOT 1) + 2 \<le> 0x18000"
    using aligned_bound(1) [of "vram_offset a AND NOT 1" "0xC000"] vram_offset_less [of a]
    by simp
  show "unat (vram_offset a) + 2 \<le> 0x18000" if "aligned a 2"
    using aligned_bound(1) [of "vram_offset a" "0xC000"] vram_offset_aligned [of a 1] that
      vram_offset_less [of a]
    by simp
  show "unat (vram_offset a) + 4 \<le> 0x18000" if "aligned a 4"
    using aligned_bound(2) [of "vram_offset a" "0x6000"] vram_offset_aligned [of a 2] that
      vram_offset_less [of a]
    by simp
qed

lemma ppu_ok_blank: "ppu_ok blank_ppu"
  by (simp add: ppu_ok_def blank_ppu_def)


lemma same_word_offset:
  assumes "b AND 0x3FE = a AND (0x3FE::u32)"
  shows "unat (b AND 0x3FF) = unat (a AND 0x3FE) \<or> unat (b AND 0x3FF) = unat (a AND 0x3FE) + 1"
proof -
  have "(0x3FF::u32) AND NOT 1 = 0x3FE"
    by simp
  then have "(b AND 0x3FF) AND NOT 1 = b AND 0x3FE"
    by (metis and.assoc)
  then have "unat (b AND 0x3FF) = unat (a AND 0x3FE) + unat ((b AND 0x3FF) AND 1)"
    using unat_split_mask [of "b AND 0x3FF" 1] assms by simp
  then show ?thesis
    using unat_and_1 [of "b AND 0x3FF"] by auto
qed


lemma unmirrored_mask: "(a AND NOT 0x8000) AND 0x1FFFF = a AND (0x17FFF :: u32)"
proof -
  have "NOT 0x8000 AND (0x1FFFF :: u32) = 0x17FFF"
    by simp
  then show ?thesis
    by (metis and.assoc)
qed

lemma vram_offset_mirror:
  assumes "0x18000 \<le> a AND (0x1FFFF :: u32)"
  shows "vram_offset a = a AND 0x17FFF"
    and "vram_offset (a AND NOT 0x8000) = a AND 0x17FFF"
    and "unat (a AND 0x17FFF) + 0x8000 = unat (a AND 0x1FFFF)"
proof -
  show m: "vram_offset a = a AND 0x17FFF"
    using assms by (simp add: vram_offset_def mirror_mask_neg)
  have le: "unat (a AND 0x17FFF) \<le> 0x17FFF"
    using unat_and_le [of a "0x17FFF"] by simp
  then have "\<not> 0x18000 \<le> a AND 0x17FFF"
    by (simp add: word_le_nat_alt)
  then have "vram_offset (a AND NOT 0x8000) = a AND 0x17FFF"
    unfolding vram_offset_def Let_def unmirrored_mask by (simp only: if_False)
  then show "vram_offset (a AND NOT 0x8000) = a AND 0x17FFF" .
  have s: "unat (a AND 0x1FFFF) = unat (a AND 0x17FFF) + unat ((a AND 0x1FFFF) AND 0x8000)"
    using unat_split_mask [of "a AND 0x1FFFF" "0x8000"] by (simp only: mirror_mask)
  have ge: "0x18000 \<le> unat (a AND 0x1FFFF)"
    using assms by (simp add: word_le_nat_alt)
  have "(a AND 0x1FFFF) AND 0x8000 = 0 \<or> (a AND 0x1FFFF) AND 0x8000 = 0x8000"
    using and_exp_cases [of "a AND 0x1FFFF" 15] by simp
  then show "unat (a AND 0x17FFF) + 0x8000 = unat (a AND 0x1FFFF)"
  proof
    assume "(a AND 0x1FFFF) AND 0x8000 = 0"
    then show ?thesis
      using s le ge by simp
  next
    assume "(a AND 0x1FFFF) AND 0x8000 = 0x8000"
    then show ?thesis
      using s by simp
  qed
qed

lemma byte_in_word:
  "unat (x::u32) = unat (x AND NOT 1) \<or> unat x = unat (x AND NOT 1) + 1"
  using unat_split_mask [of x 1] unat_and_1 [of x] by auto


lemma Sync_fields [simp]:
  "pram (Sync q) = pram q" "oam (Sync q) = oam q" "vram (Sync q) = vram q"
  "synced (Sync q) = synced q @ [(pram q, oam q, vram q)]"
  by (simp_all add: Sync_def)


section \<open>The claims about the scheduler\<close>

text \<open>
  In the theorems below \<open>H\<close> is any client: its callbacks may call \<open>Add\<close> and \<open>Cancel\<close>
  while \<open>Step\<close> runs them.  A state \<open>s\<close> with \<open>run_new H cs = Some (Inr s)\<close> is a state
  that a constructed scheduler has reached by the calls \<open>cs\<close> of the host, none of which
  aborted or ran forever.
\<close>

text \<open>
  C9: on a scheduler that was constructed and then took any sequence of \<open>Add\<close>,
  \<open>Cancel\<close> and \<open>AddCycles\<close> calls, with callbacks that themselves add and cancel
  events, \<open>heap[i]->handle == i\<close> for every index \<open>i < 64\<close>; the handle of a pooled event
  is the index of the slot that points to it, and the event is pending exactly when its
  handle is below \<open>heap_size\<close>.  Hence \<open>Cancel(e)\<close> of a pending event \<open>e\<close> returns and
  removes exactly \<open>e\<close>: the pending events afterwards are those before without \<open>e\<close>, no
  timestamp or callback has changed, and the handles are again the indices.
\<close>

theorem handle_is_index:
  assumes "run_new H cs = Some (Inr s)"
  shows "(\<forall>i<kMaxEvents. handle (events s (heap s ! i)) = i) \<and>
         (\<forall>e<kMaxEvents. handle (events s e) < kMaxEvents \<and> heap s ! handle (events s e) = e \<and>
            (e \<in> set (pending s) \<longleftrightarrow> handle (events s e) < heap_size s)) \<and>
         (\<forall>e \<in> set (pending s).
            \<exists>s'. Cancel e s = Inr s' \<and> mset (pending s') = mset (pending s) - {#e#} \<and>
              e \<notin> set (pending s') \<and>
              (\<forall>x. timestamp (events s' x) = timestamp (events s x) \<and>
                   callback (events s' x) = callback (events s x)) \<and>
              (\<forall>i<kMaxEvents. handle (events s' (heap s' ! i)) = i))"
proof (intro conjI)
  have p: "pool_ok s" and h: "heap_ok s"
    using assms by (simp_all add: pool_ok_run_new heap_ok_run_new)
  show "\<forall>i<kMaxEvents. handle (events s (heap s ! i)) = i"
    using p by (simp add: pool_ok_def)
  show "\<forall>e<kMaxEvents. handle (events s e) < kMaxEvents \<and> heap s ! handle (events s e) = e \<and>
      (e \<in> set (pending s) \<longleftrightarrow> handle (events s e) < heap_size s)"
  proof (intro allI impI)
    fix e assume e: "e < kMaxEvents"
    note l = handle_lookup [OF p e]
    have "e \<in> set (pending s)" if "handle (events s e) < heap_size s"
    proof -
      have "heap_size s \<le> length (heap s)"
        using p by (simp add: pool_ok_def)
      then have "take (heap_size s) (heap s) ! handle (events s e) = e"
        "handle (events s e) < length (take (heap_size s) (heap s))"
        using that l(2) by simp_all
      then show ?thesis
        unfolding pending_def by (metis nth_mem)
    qed
    then show "handle (events s e) < kMaxEvents \<and> heap s ! handle (events s e) = e \<and>
        (e \<in> set (pending s) \<longleftrightarrow> handle (events s e) < heap_size s)"
      using l pending_index(1) [OF p] by blast
  qed
  show "\<forall>e \<in> set (pending s).
      \<exists>s'. Cancel e s = Inr s' \<and> mset (pending s') = mset (pending s) - {#e#} \<and>
        e \<notin> set (pending s') \<and>
        (\<forall>x. timestamp (events s' x) = timestamp (events s x) \<and>
             callback (events s' x) = callback (events s x)) \<and>
        (\<forall>i<kMaxEvents. handle (events s' (heap s' ! i)) = i)"
  proof
    fix e assume "e \<in> set (pending s)"
    from pending_Cancel [OF p h this] obtain s' where s': "Cancel e s = Inr s'" "pool_ok s'"
      "mset (pending s') = mset (pending s) - {#e#}" "e \<notin> set (pending s')"
      "\<forall>x. timestamp (events s' x) = timestamp (events s x) \<and>
           callback (events s' x) = callback (events s x)"
      by blast
    have "\<forall>i<kMaxEvents. handle (events s' (heap s' ! i)) = i"
      using s'(2) by (simp add: pool_ok_def)
    with s' show "\<exists>s'. Cancel e s = Inr s' \<and> mset (pending s') = mset (pending s) - {#e#} \<and>
        e \<notin> set (pending s') \<and>
        (\<forall>x. timestamp (events s' x) = timestamp (events s x) \<and>
             callback (events s' x) = callback (events s x)) \<and>
        (\<forall>i<kMaxEvents. handle (events s' (heap s' ! i)) = i)"
      by blast
  qed
qed

theorem handle_is_index_witness:
  "\<exists>s s'. run_new rearm [CallAdd 5 (Client 5), CallAdd 3 (Client 3), CallAdd 8 (Client 8),
                          CallAddCycles 6] = Some (Inr s) \<and>
       pending s = [2, 0, 3] \<and>
       handle (events s (heap s ! 0)) = 0 \<and> handle (events s (heap s ! 63)) = 63 \<and>
       handle (events s 3) = 2 \<and> heap s ! handle (events s 3) = 3 \<and>
       handle (events s 1) = 3 \<and> 1 \<notin> set (pending s) \<and>
       Cancel 0 s = Inr s' \<and> mset (pending s') = {#2, 3#} \<and>
       handle (events s' (heap s' ! 1)) = 1"
proof -
  let ?cs = "[CallAdd 5 (Client 5), CallAdd 3 (Client 3), CallAdd 8 (Client 8), CallAddCycles 6]"
  have "case run_new rearm ?cs of
      Some (Inr s) \<Rightarrow> pending s = [2, 0, 3] \<and> heap_size s = 3
    | _ \<Rightarrow> False"
    by code_simp
  then obtain s where s: "run_new rearm ?cs = Some (Inr s)" "pending s = [2, 0, 3]"
    "heap_size s = 3"
    by (auto split: option.splits sum.splits)
  note t = handle_is_index [OF s(1)]
  have idx: "handle (events s (heap s ! i)) = i" if "i < 64" for i
    using t that by (simp add: kMaxEvents_def)
  have l: "heap s ! handle (events s e) = e" if "e < 64" for e
    using t that by (simp add: kMaxEvents_def)
  have "case run_new rearm ?cs of Some (Inr s) \<Rightarrow> heap s ! 2 = 3 \<and> heap s ! 3 = 1 | _ \<Rightarrow> False"
    by code_simp
  then have hp: "heap s ! 2 = 3" "heap s ! 3 = 1"
    using s(1) by simp_all
  have h: "handle (events s 3) = 2" "handle (events s 1) = 3"
    using idx [of 2] idx [of 3] hp by simp_all
  have "0 \<in> set (pending s)"
    using s(2) by simp
  then obtain s' where s': "Cancel 0 s = Inr s'" "mset (pending s') = mset (pending s) - {#0#}"
    "\<forall>i<kMaxEvents. handle (events s' (heap s' ! i)) = i"
    using t by blast
  have "mset (pending s') = {#2, 3#}"
    using s'(2) s(2) by simp
  moreover have "handle (events s' (heap s' ! 1)) = 1"
    using s'(3) by (simp add: kMaxEvents_def)
  moreover have "1 \<notin> set (pending s)"
    using s(2) by simp
  ultimately show ?thesis
    using s(1,2) idx [of 0] idx [of 63] h l [of 3] s'(1) by auto
qed

text \<open>
  C5: the constructor leaves one event pending, the sentinel of \<open>Reset\<close>.  In every state
  reached from there by calls that did not abort, at most 64 events are pending, \<open>Add\<close>
  aborts with the capacity assertion exactly when 64 are pending, and otherwise succeeds
  and makes one more event pending.  A sequence of calls aborts with the capacity
  assertion only in an \<open>Add\<close> that is called while 64 events are pending: an \<open>Add\<close> of
  the host, or, during an \<open>AddCycles\<close> of the host, an \<open>Add\<close> of a callback that the loop
  of \<open>Step\<close> has called (the event of that callback is still pending while it runs).
\<close>

theorem capacity_assertion:
  "(\<exists>s0. Scheduler = Inr s0 \<and> heap_size s0 = 1 \<and> callback (events s0 (heap s0 ! 0)) = EndOfQueue) \<and>
   (run_new H cs = Some (Inr s) \<longrightarrow>
      heap_size s \<le> kMaxEvents \<and>
      (Add delay cb s = Inl CapacityExceeded \<longleftrightarrow> heap_size s = kMaxEvents) \<and>
      (heap_size s < kMaxEvents \<longrightarrow>
         (\<exists>e s'. Add delay cb s = Inr (e, s') \<and> heap_size s' = heap_size s + 1))) \<and>
   (run_new H cs = Some (Inl CapacityExceeded) \<longrightarrow>
      (\<exists>pre c post s'. cs = pre @ c # post \<and> run_new H pre = Some (Inr s') \<and>
         ((\<exists>d c'. c = CallAdd d c') \<and> heap_size s' = kMaxEvents \<or>
          (\<exists>n u l rs d c' rs' u'. c = CallAddCycles n \<and>
             drains H (timestamp_now s' + word_of_int n) s' u \<and>
             due (timestamp_now s' + word_of_int n) u \<and>
             callback (events u (heap u ! 0)) = Client l \<and>
             H l (called u) = rs @ DoAdd d c' # rs' \<and>
             do_requests rs (called u) = Inr u' \<and> heap_size u' = kMaxEvents))))"
proof (intro conjI impI)
  show "\<exists>s0. Scheduler = Inr s0 \<and> heap_size s0 = 1 \<and> callback (events s0 (heap s0 ! 0)) = EndOfQueue"
    using Scheduler_Inr by blast
next
  assume r: "run_new H cs = Some (Inr s)"
  then have p: "pool_ok s"
    by (rule pool_ok_run_new)
  then show "heap_size s \<le> kMaxEvents"
    by (simp add: pool_ok_def)
  then show "Add delay cb s = Inl CapacityExceeded \<longleftrightarrow> heap_size s = kMaxEvents"
    by (auto simp: Add_error)
  assume lt: "heap_size s < kMaxEvents"
  obtain e s' where a: "Add delay cb s = Inr (e, s')"
    using Add_Inr [OF lt] by blast
  then have "heap_size s' = heap_size s + 1"
    using pool_ok_Add(2) [OF p] by blast
  with a show "\<exists>e s'. Add delay cb s = Inr (e, s') \<and> heap_size s' = heap_size s + 1"
    by blast
next
  assume r: "run_new H cs = Some (Inl CapacityExceeded)"
  obtain s0 where s0: "Scheduler = Inr s0" "pool_ok s0"
    using Scheduler_Inr by blast
  from r have "run H cs s0 = Some (Inl CapacityExceeded)"
    unfolding run_new_def s0(1) by simp
  then obtain pre c post s' where
    x: "cs = pre @ c # post" "run H pre s0 = Some (Inr s')"
      "perform H c s' = Some (Inl CapacityExceeded)"
    using run_capacity by blast
  have rn: "run_new H pre = Some (Inr s')"
    unfolding run_new_def s0(1) using x(2) by simp
  then have p: "pool_ok s'"
    by (rule pool_ok_run_new)
  let ?t = "\<lambda>n. timestamp_now s' + word_of_int n"
  from perform_capacity [OF x(3)]
  have d: "(\<exists>d c'. c = CallAdd d c') \<and> heap_size s' = kMaxEvents \<or>
      (\<exists>n u l rs d c' rs' u'. c = CallAddCycles n \<and> drains H (?t n) s' u \<and> due (?t n) u \<and>
         callback (events u (heap u ! 0)) = Client l \<and>
         H l (called u) = rs @ DoAdd d c' # rs' \<and>
         do_requests rs (called u) = Inr u' \<and> heap_size u' = kMaxEvents)"
  proof
    assume "\<exists>delay cb. c = CallAdd delay cb \<and> kMaxEvents \<le> heap_size s'"
    then show ?thesis
      using p by (auto simp: pool_ok_def)
  next
    assume "\<exists>n u l pre delay cb post u'. c = CallAddCycles n \<and> drains H (?t n) s' u \<and>
        due (?t n) u \<and> callback (events u (heap u ! 0)) = Client l \<and>
        H l (called u) = pre @ DoAdd delay cb # post \<and>
        do_requests pre (called u) = Inr u' \<and> kMaxEvents \<le> heap_size u'"
    then obtain n u l rs d c' rs' u' where y: "c = CallAddCycles n" "drains H (?t n) s' u"
      "due (?t n) u" "callback (events u (heap u ! 0)) = Client l"
      "H l (called u) = rs @ DoAdd d c' # rs'" "do_requests rs (called u) = Inr u'"
      "kMaxEvents \<le> heap_size u'"
      by blast
    have "pool_ok (called u)"
      using pool_ok_drains [OF y(2) p] by simp
    then have "pool_ok u'"
      using y(6) by (rule pool_ok_do_requests)
    then have "heap_size u' = kMaxEvents"
      using y(7) by (simp add: pool_ok_def)
    with y show ?thesis
      by blast
  qed
  show "\<exists>pre c post s'. cs = pre @ c # post \<and> run_new H pre = Some (Inr s') \<and>
      ((\<exists>d c'. c = CallAdd d c') \<and> heap_size s' = kMaxEvents \<or>
       (\<exists>n u l rs d c' rs' u'. c = CallAddCycles n \<and>
          drains H (timestamp_now s' + word_of_int n) s' u \<and>
          due (timestamp_now s' + word_of_int n) u \<and>
          callback (events u (heap u ! 0)) = Client l \<and>
          H l (called u) = rs @ DoAdd d c' # rs' \<and>
          do_requests rs (called u) = Inr u' \<and> heap_size u' = kMaxEvents))"
  proof (intro exI conjI)
    show "cs = pre @ c # post"
      by (rule x(1))
    show "run_new H pre = Some (Inr s')"
      by (rule rn)
    show "(\<exists>d c'. c = CallAdd d c') \<and> heap_size s' = kMaxEvents \<or>
      (\<exists>n u l rs d c' rs' u'. c = CallAddCycles n \<and> drains H (?t n) s' u \<and> due (?t n) u \<and>
         callback (events u (heap u ! 0)) = Client l \<and>
         H l (called u) = rs @ DoAdd d c' # rs' \<and>
         do_requests rs (called u) = Inr u' \<and> heap_size u' = kMaxEvents)"
      by (rule d)
  qed
qed

theorem capacity_assertion_witness:
  "(\<exists>s. run_new quiet (replicate 63 (CallAdd 7 (Client 0))) = Some (Inr s) \<and> heap_size s = 64 \<and>
        Add 7 (Client 1) s = Inl CapacityExceeded) \<and>
   (\<exists>s e s'. run_new quiet (replicate 62 (CallAdd 7 (Client 0))) = Some (Inr s) \<and>
        heap_size s = 63 \<and> Add 7 (Client 1) s = Inr (e, s') \<and> heap_size s' = 64) \<and>
   run_new quiet (replicate 64 (CallAdd 7 (Client 0))) = Some (Inl CapacityExceeded) \<and>
   run_new rearm (CallAdd 5 (Client 5) # replicate 62 (CallAdd 7 (Client 0)) @ [CallAddCycles 6]) =
     Some (Inl CapacityExceeded) \<and>
   (\<exists>pre c post s'.
      CallAdd 5 (Client 5) # replicate 62 (CallAdd 7 (Client 0)) @ [CallAddCycles 6] =
        pre @ c # post \<and>
      run_new rearm pre = Some (Inr s') \<and>
      ((\<exists>d c'. c = CallAdd d c') \<and> heap_size s' = kMaxEvents \<or>
       (\<exists>n u l rs d c' rs' u'. c = CallAddCycles n \<and>
          drains rearm (timestamp_now s' + word_of_int n) s' u \<and>
          due (timestamp_now s' + word_of_int n) u \<and>
          callback (events u (heap u ! 0)) = Client l \<and>
          rearm l (called u) = rs @ DoAdd d c' # rs' \<and>
          do_requests rs (called u) = Inr u' \<and> heap_size u' = kMaxEvents)))"
proof -
  let ?c = "CallAdd 7 (Client 0)"
  let ?cs = "CallAdd 5 (Client 5) # replicate 62 ?c @ [CallAddCycles 6]"
  have "case run_new quiet (replicate 63 ?c) of Some (Inr s) \<Rightarrow> heap_size s = 64 | _ \<Rightarrow> False"
    by code_simp
  then obtain s where s: "run_new quiet (replicate 63 ?c) = Some (Inr s)" "heap_size s = 64"
    by (auto split: option.splits sum.splits)
  have "case run_new quiet (replicate 62 ?c) of Some (Inr s) \<Rightarrow> heap_size s = 63 | _ \<Rightarrow> False"
    by code_simp
  then obtain t where t: "run_new quiet (replicate 62 ?c) = Some (Inr t)" "heap_size t = 63"
    by (auto split: option.splits sum.splits)
  have "case run_new quiet (replicate 64 ?c) of
      Some (Inl e) \<Rightarrow> e = CapacityExceeded | _ \<Rightarrow> False"
    by code_simp
  then have x: "run_new quiet (replicate 64 ?c) = Some (Inl CapacityExceeded)"
    by (auto split: option.splits sum.splits)
  have "case run_new rearm ?cs of Some (Inl e) \<Rightarrow> e = CapacityExceeded | _ \<Rightarrow> False"
    by code_simp
  then have y: "run_new rearm ?cs = Some (Inl CapacityExceeded)"
    by (auto split: option.splits sum.splits)
  have 1: "Add 7 (Client 1) s = Inl CapacityExceeded"
    using capacity_assertion [of quiet "replicate 63 ?c" s 7 "Client 1"] s
    by (simp add: kMaxEvents_def)
  have 2: "\<exists>e s'. Add 7 (Client 1) t = Inr (e, s') \<and> heap_size s' = 64"
    using capacity_assertion [of quiet "replicate 62 ?c" t 7 "Client 1"] t
    by (simp add: kMaxEvents_def)
  have 3: "\<exists>pre c post s'. ?cs = pre @ c # post \<and> run_new rearm pre = Some (Inr s') \<and>
      ((\<exists>d c'. c = CallAdd d c') \<and> heap_size s' = kMaxEvents \<or>
       (\<exists>n u l rs d c' rs' u'. c = CallAddCycles n \<and>
          drains rearm (timestamp_now s' + word_of_int n) s' u \<and>
          due (timestamp_now s' + word_of_int n) u \<and>
          callback (events u (heap u ! 0)) = Client l \<and>
          rearm l (called u) = rs @ DoAdd d c' # rs' \<and>
          do_requests rs (called u) = Inr u' \<and> heap_size u' = kMaxEvents))"
    by (rule capacity_assertion [of rearm ?cs, THEN conjunct2, THEN conjunct2, THEN mp, OF y])
  have a: "\<exists>s. run_new quiet (replicate 63 ?c) = Some (Inr s) \<and> heap_size s = 64 \<and>
      Add 7 (Client 1) s = Inl CapacityExceeded"
    using s 1 by blast
  have b: "\<exists>s e s'. run_new quiet (replicate 62 ?c) = Some (Inr s) \<and>
      heap_size s = 63 \<and> Add 7 (Client 1) s = Inr (e, s') \<and> heap_size s' = 64"
    using t 2 by blast
  show ?thesis
    using a b x y 3 by (intro conjI)
qed

text \<open>
  C2: in every state that a constructed scheduler reaches by \<open>Add\<close>, \<open>Cancel\<close> and
  \<open>AddCycles\<close> calls that do not abort (an \<open>Add\<close> aborts when \<open>heap_size\<close> is 64), the
  array is a min-heap: for every index \<open>i < heap_size\<close> and every child index
  \<open>j < heap_size\<close> of \<open>i\<close>, \<open>heap[i]->timestamp <= heap[j]->timestamp\<close>.  The callbacks
  that \<open>AddCycles\<close> runs may themselves call \<open>Add\<close> and \<open>Cancel\<close>.
\<close>

theorem min_heap_property:
  assumes "run_new H cs = Some (Inr s)"
    and "i < heap_size s" and "j < heap_size s" and "j = LeftChild i \<or> j = RightChild i"
  shows "timestamp (events s (heap s ! i)) \<le> timestamp (events s (heap s ! j))"
proof -
  have "heap_prop (key s) (heap_size s)"
    using heap_ok_run_new [OF assms(1)] by (simp add: heap_ok_def)
  moreover have "0 < j" "Parent j = i"
    using assms(4) by auto
  ultimately have "key s i \<le> key s j"
    using assms(3) by (auto simp: heap_prop_def)
  then show ?thesis
    by (simp add: key_def)
qed

theorem min_heap_property_witness:
  "\<exists>s. run_new quiet [CallAdd 9 (Client 1), CallAdd 4 (Client 2), CallAdd 7 (Client 3),
                        CallAdd 2 (Client 4), CallCancel 2, CallAdd 1 (Client 5)] = Some (Inr s) \<and>
       heap_size s = 5 \<and> 1 = LeftChild 0 \<and> 4 = RightChild 1 \<and>
       timestamp (events s (heap s ! 0)) \<le> timestamp (events s (heap s ! 1)) \<and>
       timestamp (events s (heap s ! 1)) \<le> timestamp (events s (heap s ! 4))"
proof -
  let ?cs = "[CallAdd 9 (Client 1), CallAdd 4 (Client 2), CallAdd 7 (Client 3),
              CallAdd 2 (Client 4), CallCancel 2, CallAdd 1 (Client 5)]"
  have "case run_new quiet ?cs of Some (Inr s) \<Rightarrow> heap_size s = 5 | _ \<Rightarrow> False"
    by code_simp
  then obtain s where s: "run_new quiet ?cs = Some (Inr s)" "heap_size s = 5"
    by (auto split: option.splits sum.splits)
  have c: "1 = LeftChild 0" "4 = RightChild 1"
    by (simp_all add: LeftChild_def RightChild_def)
  have "timestamp (events s (heap s ! 0)) \<le> timestamp (events s (heap s ! 1))"
    using min_heap_property [OF s(1), of 0 1] s(2) c by simp
  moreover have "timestamp (events s (heap s ! 1)) \<le> timestamp (events s (heap s ! 4))"
    using min_heap_property [OF s(1), of 1 4] s(2) c by simp
  ultimately show ?thesis
    using s c by blast
qed





section \<open>The claims about the memory accessors\<close>

text \<open>
  C10: with arrays of the declared sizes, every access through the accessors whose
  address is aligned to the access width stays inside the array, so the read or write is
  defined (8-bit accesses need no alignment: the 8-bit writes to palette and video memory
  write the enclosing 16-bit word).  Alignment is needed: the 32-bit accesses at palette
  or attribute address \<open>0x3FE\<close> and the 16-bit access at video address \<open>0x17FFF\<close> leave
  their array.
\<close>

theorem aligned_access_in_bounds:
  assumes "ppu_ok p"
  shows "(ReadPRAM_u8 a p \<noteq> None \<and> ReadOAM_u8 a p \<noteq> None \<and> ReadVRAM_u8 a p \<noteq> None \<and>
          WritePRAM_u8 a v8 p \<noteq> None \<and> WriteOAM_u8 a v8 p \<noteq> None \<and> WriteVRAM_u8 a v8 p \<noteq> None) \<and>
         (aligned a 2 \<longrightarrow>
            ReadPRAM_u16 a p \<noteq> None \<and> ReadOAM_u16 a p \<noteq> None \<and> ReadVRAM_u16 a p \<noteq> None \<and>
            WritePRAM_u16 a v16 p \<noteq> None \<and> WriteOAM_u16 a v16 p \<noteq> None \<and>
            WriteVRAM_u16 a v16 p \<noteq> None) \<and>
         (aligned a 4 \<longrightarrow>
            ReadPRAM_u32 a p \<noteq> None \<and> ReadOAM_u32 a p \<noteq> None \<and> ReadVRAM_u32 a p \<noteq> None \<and>
            WritePRAM_u32 a v32 p \<noteq> None \<and> WriteOAM_u32 a v32 p \<noteq> None \<and>
            WriteVRAM_u32 a v32 p \<noteq> None) \<and>
         ReadPRAM_u32 0x3FE p = None \<and> WritePRAM_u32 0x3FE v32 p = None \<and>
         ReadOAM_u32 0x3FE p = None \<and> WriteOAM_u32 0x3FE v32 p = None \<and>
         ReadVRAM_u16 0x17FFF p = None \<and> WriteVRAM_u16 0x17FFF v16 p = None"
proof -
  have len: "length (pram p) = 0x400" "length (oam p) = 0x400" "length (vram p) = 0x18000"
    using assms by (simp_all add: ppu_ok_def)
  have w8: "ReadPRAM_u8 a p \<noteq> None \<and> ReadOAM_u8 a p \<noteq> None \<and> ReadVRAM_u8 a p \<noteq> None \<and>
          WritePRAM_u8 a v8 p \<noteq> None \<and> WriteOAM_u8 a v8 p \<noteq> None \<and> WriteVRAM_u8 a v8 p \<noteq> None"
    using pram_bounds(1,2) [of a] vram_bounds(1,2) [of a] len
    by (simp add: ReadPRAM_u8_def ReadOAM_u8_def ReadVRAM_offset WritePRAM_u8_def
        WriteOAM_u8_def WriteVRAM_offset read_u8_def write_u16_def)
  have w16: "ReadPRAM_u16 a p \<noteq> None \<and> ReadOAM_u16 a p \<noteq> None \<and> ReadVRAM_u16 a p \<noteq> None \<and>
            WritePRAM_u16 a v16 p \<noteq> None \<and> WriteOAM_u16 a v16 p \<noteq> None \<and>
            WriteVRAM_u16 a v16 p \<noteq> None" if "aligned a 2"
    using pram_bounds(3) [OF that] vram_bounds(3) [OF that] len
    by (simp add: ReadPRAM_u16_def ReadOAM_u16_def ReadVRAM_offset WritePRAM_u16_def
        WriteOAM_u16_def WriteVRAM_offset read_u16_def write_u16_def)
  have w32: "ReadPRAM_u32 a p \<noteq> None \<and> ReadOAM_u32 a p \<noteq> None \<and> ReadVRAM_u32 a p \<noteq> None \<and>
            WritePRAM_u32 a v32 p \<noteq> None \<and> WriteOAM_u32 a v32 p \<noteq> None \<and>
            WriteVRAM_u32 a v32 p \<noteq> None" if "aligned a 4"
    using pram_bounds(4) [OF that] vram_bounds(4) [OF that] len
    by (simp add: ReadPRAM_u32_def ReadOAM_u32_def ReadVRAM_offset WritePRAM_u32_def
        WriteOAM_u32_def WriteVRAM_offset read_u32_def write_u32_def)
  have "vram_offset 0x17FFF = 0x17FFF"
    by (simp add: vram_offset_def)
  then have out: "ReadPRAM_u32 0x3FE p = None \<and> WritePRAM_u32 0x3FE v32 p = None \<and>
         ReadOAM_u32 0x3FE p = None \<and> WriteOAM_u32 0x3FE v32 p = None \<and>
         ReadVRAM_u16 0x17FFF p = None \<and> WriteVRAM_u16 0x17FFF v16 p = None"
    using len
    by (simp add: ReadPRAM_u32_def ReadOAM_u32_def ReadVRAM_offset WritePRAM_u32_def
        WriteOAM_u32_def WriteVRAM_offset read_u32_def write_u32_def read_u16_def write_u16_def)
  show ?thesis
    using w8 w16 w32 out by blast
qed

theorem aligned_access_in_bounds_witness:
  "WriteVRAM_u8 0x0601FFFF 7 blank_ppu \<noteq> None \<and> ReadVRAM_u16 0x0601FFFE blank_ppu \<noteq> None \<and>
   ReadOAM_u32 0x070003FC blank_ppu \<noteq> None \<and> ReadPRAM_u32 0x3FE blank_ppu = None"
proof -
  note t = aligned_access_in_bounds [OF ppu_ok_blank]
  have a: "aligned 0x0601FFFE 2" "aligned 0x070003FC 4"
    by (simp_all add: aligned_def)
  have "WriteVRAM_u8 0x0601FFFF 7 blank_ppu \<noteq> None"
    using t [of "0x0601FFFF" 7] by simp
  moreover have "ReadVRAM_u16 0x0601FFFE blank_ppu \<noteq> None"
    using t [of "0x0601FFFE"] a(1) by simp
  moreover have "ReadOAM_u32 0x070003FC blank_ppu \<noteq> None"
    using t [of "0x070003FC"] a(2) by simp
  moreover have "ReadPRAM_u32 0x3FE blank_ppu = None"
    using t [of 0] by simp
  ultimately show ?thesis
    by simp
qed

text \<open>
  C7: an 8-bit write to palette memory stores the byte in both bytes of the 16-bit word
  at offset \<open>address & 0x3FE\<close> and changes nothing else in the array; an 8-bit read at
  either byte of that word then returns the byte.
\<close>

theorem palette_byte_write:
  assumes "ppu_ok p"
  shows "\<exists>p'. WritePRAM_u8 a v p = Some p' \<and>
           pram p' = (pram p)[unat (a AND 0x3FE) := v, unat (a AND 0x3FE) + 1 := v] \<and>
           (\<forall>b. b AND 0x3FE = a AND 0x3FE \<longrightarrow> ReadPRAM_u8 b p' = Some v)"
proof -
  let ?off = "unat (a AND 0x3FE)"
  let ?m = "(pram p)[?off := v, ?off + 1 := v]"
  have len: "length (pram p) = 0x400"
    using assms by (simp add: ppu_ok_def)
  have off: "?off + 2 \<le> 0x400"
    by (rule pram_bounds(2))
  have w: "WritePRAM_u8 a v p = Some (Sync (p\<lparr>pram := ?m\<rparr>))"
    using off len
    by (simp add: WritePRAM_u8_def write_u16_def byte_replicated_low byte_replicated_high)
  have "ReadPRAM_u8 b (Sync (p\<lparr>pram := ?m\<rparr>)) = Some v" if "b AND 0x3FE = a AND 0x3FE" for b
    using same_word_offset [OF that] off len pram_bounds(1) [of b]
    by (auto simp: ReadPRAM_u8_def read_u8_def Sync_def nth_list_update)
  then show ?thesis
    using w by (simp add: Sync_def)
qed

theorem palette_byte_write_witness:
  "\<exists>p'. WritePRAM_u8 0x05000021 0xAB blank_ppu = Some p' \<and>
     ReadPRAM_u8 0x05000020 p' = Some 0xAB \<and> ReadPRAM_u8 0x05000021 p' = Some 0xAB"
proof -
  have "(0x05000020 :: u32) AND 0x3FE = 0x05000021 AND 0x3FE"
    by simp
  then show ?thesis
    using palette_byte_write [OF ppu_ok_blank, of "0x05000021" "0xAB"] by auto
qed

text \<open>
  C8: an 8-bit write to object attribute memory returns the state it was given, so every
  later read of that memory, at any address and width, returns what it returned before;
  the 16-bit and the 32-bit write store their value, which a read of the same width at
  the same aligned address returns.
\<close>

theorem oam_byte_write_discarded:
  "WriteOAM_u8 a v p = Some p \<and>
   (ppu_ok p \<and> aligned a 2 \<longrightarrow>
      (\<exists>p'. WriteOAM_u16 a v16 p = Some p' \<and> ReadOAM_u16 a p' = Some v16)) \<and>
   (ppu_ok p \<and> aligned a 4 \<longrightarrow>
      (\<exists>p'. WriteOAM_u32 a v32 p = Some p' \<and> ReadOAM_u32 a p' = Some v32))"
proof (intro conjI impI)
  show "WriteOAM_u8 a v p = Some p"
    by (simp add: WriteOAM_u8_def)
next
  assume h: "ppu_ok p \<and> aligned a 2"
  then have "unat (a AND 0x3FF) + 2 \<le> length (oam p)"
    using pram_bounds(3) [of a] by (simp add: ppu_ok_def)
  from read_write_u16 [OF this, of v16]
  show "\<exists>p'. WriteOAM_u16 a v16 p = Some p' \<and> ReadOAM_u16 a p' = Some v16"
    by (auto simp: WriteOAM_u16_def ReadOAM_u16_def)
next
  assume h: "ppu_ok p \<and> aligned a 4"
  then have "unat (a AND 0x3FF) + 4 \<le> length (oam p)"
    using pram_bounds(4) [of a] by (simp add: ppu_ok_def)
  from read_write_u32 [OF this, of v32]
  show "\<exists>p'. WriteOAM_u32 a v32 p = Some p' \<and> ReadOAM_u32 a p' = Some v32"
    by (auto simp: WriteOAM_u32_def ReadOAM_u32_def)
qed

theorem oam_byte_write_discarded_witness:
  "WriteOAM_u8 0x07000010 0xAB blank_ppu = Some blank_ppu \<and>
   (\<exists>p'. WriteOAM_u16 0x07000010 0x1234 blank_ppu = Some p' \<and>
      ReadOAM_u16 0x07000010 p' = Some 0x1234) \<and>
   (\<exists>p'. WriteOAM_u32 0x07000010 0x12345678 blank_ppu = Some p' \<and>
      ReadOAM_u32 0x07000010 p' = Some 0x12345678)"
proof -
  have "aligned 0x07000010 2" "aligned 0x07000010 4"
    by (simp_all add: aligned_def)
  then show ?thesis
    using oam_byte_write_discarded [of "0x07000010" "0xAB" blank_ppu "0x1234" "0x12345678"]
      ppu_ok_blank
    by simp
qed

text \<open>
  C4, as the code has it: let the masked address \<open>address & 0x1FFFF\<close> be in the mirrored
  range \<open>[0x18000, 0x1FFFF]\<close>.  In a bitmap mode (\<open>mode >= 3\<close>) an 8-bit write followed by
  an 8-bit read at the address with the mirror bit cleared returns the byte written when
  the masked address is below \<open>0x1C000\<close> (the offset is then below the limit
  \<open>0x14000\<close>).  In a bitmap mode with the masked address in \<open>[0x1C000, 0x1FFFF]\<close>, and in
  every non-bitmap mode, the write leaves video memory unchanged and the read returns
  what it returned before.
\<close>

theorem vram_mirror_byte_write:
  assumes "ppu_ok p" and "0x18000 \<le> a AND 0x1FFFF"
  shows "(3 \<le> dispcnt_mode p \<and> a AND 0x1FFFF < 0x1C000 \<longrightarrow>
            (\<exists>p'. WriteVRAM_u8 a v p = Some p' \<and> ReadVRAM_u8 (a AND NOT 0x8000) p' = Some v)) \<and>
         (dispcnt_mode p < 3 \<or> 0x1C000 \<le> a AND 0x1FFFF \<longrightarrow>
            (\<exists>p'. WriteVRAM_u8 a v p = Some p' \<and> vram p' = vram p \<and>
               ReadVRAM_u8 (a AND NOT 0x8000) p' = ReadVRAM_u8 (a AND NOT 0x8000) p))"
proof (intro conjI impI)
  let ?o = "a AND 0x17FFF"
  have len: "length (vram p) = 0x18000"
    using assms(1) by (simp add: ppu_ok_def)
  note m = vram_offset_mirror [OF assms(2)]
  {
    assume h: "3 \<le> dispcnt_mode p \<and> a AND 0x1FFFF < 0x1C000"
    then have "unat (a AND 0x1FFFF) < 0x1C000"
      by (simp add: word_less_nat_alt)
    then have lt: "?o < 0x14000"
      using m(3) by (simp add: word_less_nat_alt)
    let ?w = "unat (?o AND NOT 1)"
    let ?m = "(vram p)[?w := v, ?w + 1 := v]"
    have b: "?w + 2 \<le> 0x18000" "unat ?o + 1 \<le> 0x18000"
      using vram_bounds(1,2) [of a] m(1) by simp_all
    have w: "WriteVRAM_u8 a v p = Some (Sync (p\<lparr>vram := ?m\<rparr>))"
      using h lt b len
      by (simp add: WriteVRAM_offset(1) m(1) write_u16_def byte_replicated_low
          byte_replicated_high)
    have "ReadVRAM_u8 (a AND NOT 0x8000) (Sync (p\<lparr>vram := ?m\<rparr>)) =
        read_u8 (vram (Sync (p\<lparr>vram := ?m\<rparr>))) (unat ?o)"
      by (simp only: ReadVRAM_offset(1) m(2))
    moreover have "read_u8 ?m (unat ?o) = Some v"
      using byte_in_word [of ?o] b len by (auto simp: read_u8_def nth_list_update)
    ultimately have "ReadVRAM_u8 (a AND NOT 0x8000) (Sync (p\<lparr>vram := ?m\<rparr>)) = Some v"
      by (simp add: Sync_def)
    with w show "\<exists>p'. WriteVRAM_u8 a v p = Some p' \<and> ReadVRAM_u8 (a AND NOT 0x8000) p' = Some v"
      by simp
  next
    assume h: "dispcnt_mode p < 3 \<or> 0x1C000 \<le> a AND 0x1FFFF"
    have ge: "0x18000 \<le> unat (a AND 0x1FFFF)"
      using assms(2) by (simp add: word_le_nat_alt)
    have "\<not> ?o < (if 3 \<le> dispcnt_mode p then 0x14000 else 0x10000)"
    proof (cases "3 \<le> dispcnt_mode p")
      case True
      with h have "0x1C000 \<le> unat (a AND 0x1FFFF)"
        by (simp add: word_le_nat_alt)
      then show ?thesis
        using True m(3) by (simp add: word_less_nat_alt)
    next
      case False
      then show ?thesis
        using ge m(3) by (simp add: word_less_nat_alt)
    qed
    then have "WriteVRAM_u8 a v p = Some (Sync p)"
      by (simp add: WriteVRAM_offset(1) m(1))
    moreover have "ReadVRAM_u8 b (Sync p) = ReadVRAM_u8 b p" for b
      by (simp add: Sync_def ReadVRAM_offset(1))
    ultimately show "\<exists>p'. WriteVRAM_u8 a v p = Some p' \<and> vram p' = vram p \<and>
               ReadVRAM_u8 (a AND NOT 0x8000) p' = ReadVRAM_u8 (a AND NOT 0x8000) p"
      by (simp add: Sync_def)
  }
qed

theorem vram_mirror_byte_write_witness:
  "(\<exists>p'. WriteVRAM_u8 0x0601A001 0xAB (blank_ppu\<lparr>dispcnt_mode := 4\<rparr>) = Some p' \<and>
      ReadVRAM_u8 0x06012001 p' = Some 0xAB) \<and>
   (\<exists>p'. WriteVRAM_u8 0x0601A001 0xAB blank_ppu = Some p' \<and> vram p' = vram blank_ppu)"
proof -
  have ok: "ppu_ok (blank_ppu\<lparr>dispcnt_mode := 4\<rparr>)"
    using ppu_ok_blank by (simp add: ppu_ok_def)
  have a: "(0x18000 :: u32) \<le> 0x0601A001 AND 0x1FFFF" "(0x0601A001 :: u32) AND 0x1FFFF < 0x1C000"
    "(0x0601A001 :: u32) AND NOT 0x8000 = 0x06012001"
    by simp_all
  have md: "3 \<le> dispcnt_mode (blank_ppu\<lparr>dispcnt_mode := 4\<rparr>)" "dispcnt_mode blank_ppu < 3"
    by (simp_all add: blank_ppu_def)
  have "\<exists>p'. WriteVRAM_u8 0x0601A001 0xAB (blank_ppu\<lparr>dispcnt_mode := 4\<rparr>) = Some p' \<and>
      ReadVRAM_u8 (0x0601A001 AND NOT 0x8000) p' = Some 0xAB"
    using vram_mirror_byte_write [OF ok a(1), of "0xAB"] md(1) a(2) by blast
  moreover have "\<exists>p'. WriteVRAM_u8 0x0601A001 0xAB blank_ppu = Some p' \<and> vram p' = vram blank_ppu"
    using vram_mirror_byte_write [OF ppu_ok_blank a(1), of "0xAB"] md(2) by blast
  ultimately show ?thesis
    by (simp only: a(3))
qed

text \<open>
  The claim C4 as it is written fails in a bitmap mode for a masked address in
  \<open>[0x1C000, 0x1FFFF]\<close>: in mode 3 the byte \<open>0xAB\<close> written at \<open>0x0601C000\<close> is not
  returned by the read at \<open>0x06014000\<close>.
\<close>

theorem vram_mirror_counterexample:
  "ppu_ok (blank_ppu\<lparr>dispcnt_mode := 3\<rparr>) \<and>
   3 \<le> dispcnt_mode (blank_ppu\<lparr>dispcnt_mode := 3\<rparr>) \<and>
   (0x18000 :: u32) \<le> 0x0601C000 AND 0x1FFFF \<and>
   (0x0601C000 :: u32) AND NOT 0x8000 = 0x06014000 \<and>
   Option.bind (WriteVRAM_u8 0x0601C000 0xAB (blank_ppu\<lparr>dispcnt_mode := 3\<rparr>))
     (ReadVRAM_u8 0x06014000) = Some 0 \<and>
   Option.bind (WriteVRAM_u8 0x0601C000 0xAB (blank_ppu\<lparr>dispcnt_mode := 3\<rparr>))
     (ReadVRAM_u8 0x06014000) \<noteq> Some 0xAB"
  by (simp add: ppu_ok_def blank_ppu_def WriteVRAM_u8_def ReadVRAM_u8_def Let_def Sync_def
      read_u8_def)




end
